theory Spec2Isabelle
  imports Complex_Main "HOL-Library.Log_Nat"
begin

unbundle bit_operations_syntax

section \<open>Parallel all-pairs shortest paths by repeated min-plus squaring (path-mpi.c)\<close>

text \<open>
  The program stores an \<open>n\<close>-by-\<open>n\<close> matrix in one C array of \<open>n*n\<close> ints; entry
  \<open>(i,j)\<close> lives at index \<open>j*n+i\<close>. An array is modelled as an \<open>int list\<close>, an in-place
  store \<open>a[c] = v\<close> as \<open>a[c := v]\<close>, and a function that mutates its array argument returns
  the new array. Array indices and the dimension \<open>n\<close> are natural numbers: a negative index
  or an index \<open>\<ge> n*n\<close> is an access outside the C array, which has no defined behaviour,
  so the theorems below carry the bounds under which every access is inside the array.
  The entries are C ints of 32 bits, modelled by \<open>int\<close>. The kernel adds two entries;
  all values that occur in a run of \<open>shortest_paths\<close> lie between \<open>0\<close> and \<open>2*n+2\<close>, where
  the addition of the source is the addition of integers. A statement about the sums of
  arbitrary entries carries the hypothesis that they fit in a C int (\<open>sums_fit\<close>): beyond
  it the addition of the source overflows.
\<close>

subsection \<open>C ints\<close>

text \<open>The values of a 32-bit int, and the value that an int operation leaves when its
  exact result is out of range (two's complement wrap-around).\<close>

definition int32 :: "int \<Rightarrow> bool" where
  "int32 x \<longleftrightarrow> - (2 ^ 31) \<le> x \<and> x < 2 ^ 31"




subsection \<open>The kernel \<open>square\<close>\<close>

text \<open>The innermost loop \<open>for (k = 0; k < n; ++k)\<close> of \<open>square\<close>, started at \<open>k\<close>, on the
  local variables \<open>lij\<close> and \<open>done\<close>.\<close>

function square_k :: "nat \<Rightarrow> int list \<Rightarrow> nat \<Rightarrow> nat \<Rightarrow> nat \<Rightarrow> int \<times> int \<Rightarrow> int \<times> int" where
  "square_k n l j i k (lij, done) =
     (if k < n then
        (let jn = j * n;
             lkj = l ! (jn + k);
             lik = l ! (k * n + i)
         in if lik + lkj < lij then square_k n l j i (Suc k) (lik + lkj, 0)
            else square_k n l j i (Suc k) (lij, done))
      else (lij, done))"
  by pat_completeness auto
termination
  by (relation "measure (\<lambda>(n, l, j, i, k, s). n - k)") auto

text \<open>The middle loop \<open>for (i = imin_t; i < imax_t; ++i)\<close>, started at \<open>i\<close>, on the array
  \<open>lnew\<close> and the flag \<open>done\<close>.\<close>

function square_i :: "nat \<Rightarrow> int list \<Rightarrow> nat \<Rightarrow> nat \<Rightarrow> nat \<Rightarrow> int list \<times> int \<Rightarrow> int list \<times> int" where
  "square_i n l j imax_t i (lnew, done) =
     (if i < imax_t then
        (let jn = j * n;
             lij = lnew ! (jn + i);
             (lij', done') = square_k n l j i 0 (lij, done)
         in square_i n l j imax_t (Suc i) (lnew[j * n + i := lij'], done'))
      else (lnew, done))"
  by pat_completeness auto
termination
  by (relation "measure (\<lambda>(n, l, j, imax_t, i, s). imax_t - i)") auto

text \<open>The outer loop \<open>for (j = jmin_t; j < jmax_t; ++j)\<close>, started at \<open>j\<close>.\<close>

function square_j :: "nat \<Rightarrow> int list \<Rightarrow> nat \<Rightarrow> nat \<Rightarrow> nat \<Rightarrow> nat \<Rightarrow> int list \<times> int \<Rightarrow> int list \<times> int" where
  "square_j n l imin_t imax_t jmax_t j (lnew, done) =
     (if j < jmax_t then
        square_j n l imin_t imax_t jmax_t (Suc j) (square_i n l j imax_t imin_t (lnew, done))
      else (lnew, done))"
  by pat_completeness auto
termination
  by (relation "measure (\<lambda>(n, l, imin_t, imax_t, jmax_t, j, s). jmax_t - j)") auto

text \<open>\<open>square\<close> returns the flag \<open>done\<close> and leaves its result in \<open>lnew\<close>: the model returns
  the pair of the flag and the new contents of \<open>lnew\<close>. The array \<open>l\<close> is only read
  (both pointers are \<open>restrict\<close>, so \<open>l\<close> and \<open>lnew\<close> are different arrays).\<close>

definition square ::
  "nat \<Rightarrow> nat \<Rightarrow> nat \<Rightarrow> nat \<Rightarrow> nat \<Rightarrow> nat \<Rightarrow> int list \<Rightarrow> int list \<Rightarrow> int \<times> int list" where
  "square irank imin_t jmin_t imax_t jmax_t n l lnew =
     (case square_j n l imin_t imax_t jmax_t jmin_t (lnew, 1) of (lnew', done) \<Rightarrow> (done, lnew'))"

text \<open>The min-plus candidate of cell \<open>(i,j)\<close>: the sums \<open>l[k*n+i] + l[j*n+k]\<close>.\<close>

definition cand :: "nat \<Rightarrow> int list \<Rightarrow> nat \<Rightarrow> nat \<Rightarrow> nat \<Rightarrow> int" where
  "cand n l i j k = l ! (k * n + i) + l ! (j * n + k)"


definition in_tile :: "nat \<Rightarrow> nat \<Rightarrow> nat \<Rightarrow> nat \<Rightarrow> nat \<Rightarrow> nat \<Rightarrow> bool" where
  "in_tile imin_t jmin_t imax_t jmax_t i j \<longleftrightarrow> imin_t \<le> i \<and> i < imax_t \<and> jmin_t \<le> j \<and> j < jmax_t"

text \<open>What the body of the \<open>i\<close> loop stores in cell \<open>(i,j)\<close>, and whether it clears \<open>done\<close>.\<close>

definition newval :: "nat \<Rightarrow> int list \<Rightarrow> int list \<Rightarrow> nat \<Rightarrow> nat \<Rightarrow> int" where
  "newval n l lnew i j = Min (insert (lnew ! (j * n + i)) (cand n l i j ` {0..<n}))"

definition improves :: "nat \<Rightarrow> int list \<Rightarrow> int list \<Rightarrow> nat \<Rightarrow> nat \<Rightarrow> bool" where
  "improves n l lnew i j \<longleftrightarrow> (\<exists>k\<in>{0..<n}. cand n l i j k < lnew ! (j * n + i))"

subsection \<open>The infinity convention\<close>

text \<open>\<open>infinitize\<close> and \<open>deinfinitize\<close> take the four tile bounds and never use them: their
  loops run over all \<open>n*n\<close> indices.\<close>

function infinitize_loop :: "nat \<Rightarrow> nat \<Rightarrow> int list \<Rightarrow> int list" where
  "infinitize_loop n i l =
     (if i < n * n then infinitize_loop n (Suc i) (if l ! i = 0 then l[i := int n + 1] else l)
      else l)"
  by pat_completeness auto
termination
  by (relation "measure (\<lambda>(n, i, l). n * n - i)") auto

definition infinitize :: "nat \<Rightarrow> nat \<Rightarrow> nat \<Rightarrow> nat \<Rightarrow> nat \<Rightarrow> int list \<Rightarrow> int list" where
  "infinitize imin_t jmin_t imax_t jmax_t n l = infinitize_loop n 0 l"

function deinfinitize_loop :: "nat \<Rightarrow> nat \<Rightarrow> int list \<Rightarrow> int list" where
  "deinfinitize_loop n i l =
     (if i < n * n then deinfinitize_loop n (Suc i) (if l ! i = int n + 1 then l[i := 0] else l)
      else l)"
  by pat_completeness auto
termination
  by (relation "measure (\<lambda>(n, i, l). n * n - i)") auto

definition deinfinitize :: "nat \<Rightarrow> nat \<Rightarrow> nat \<Rightarrow> nat \<Rightarrow> nat \<Rightarrow> int list \<Rightarrow> int list" where
  "deinfinitize imin_t jmin_t imax_t jmax_t n l = deinfinitize_loop n 0 l"

text \<open>The loop \<open>for (i = 0; i < n*n; i += n+1) l[i] = 0\<close> of \<open>shortest_paths\<close>.\<close>

function reset_diag :: "nat \<Rightarrow> nat \<Rightarrow> int list \<Rightarrow> int list" where
  "reset_diag n i l = (if i < n * n then reset_diag n (i + (n + 1)) (l[i := 0]) else l)"
  by pat_completeness auto
termination
  by (relation "measure (\<lambda>(n, i, l). n * n - i)") auto

subsection \<open>\<open>shortest_paths\<close> on one process\<close>

text \<open>
  With a single process every \<open>MPI_Allreduce\<close> copies its send buffer to its receive buffer:
  \<open>lnew\<close> becomes \<open>l\<close> before the loop, \<open>done\<close> becomes \<open>mydone\<close> and \<open>l\<close> becomes \<open>lnew\<close>
  in every round. The loop \<open>for (int done = 0; !done; )\<close> has no bound in the source, so
  it is a partial function: \<open>None\<close> means that it runs forever. The last argument
  counts the rounds executed; it is not a variable of the source.
\<close>

partial_function (option) sp_loop ::
  "nat \<Rightarrow> nat \<Rightarrow> nat \<Rightarrow> nat \<Rightarrow> nat \<Rightarrow> nat \<Rightarrow> int list \<Rightarrow> int list \<Rightarrow> nat \<Rightarrow> (int list \<times> nat) option" where
  "sp_loop irank imin_t jmin_t imax_t jmax_t n l lnew rounds =
     (case square irank imin_t jmin_t imax_t jmax_t n l lnew of
        (mydone, lnew') \<Rightarrow>
          (let done = mydone; l' = lnew'
           in if done \<noteq> 0 then Some (l', Suc rounds)
              else sp_loop irank imin_t jmin_t imax_t jmax_t n l' lnew' (Suc rounds)))"

declare sp_loop.simps [code]

text \<open>\<open>shortest_paths\<close> up to the end of its loop: the matrix \<open>l\<close> and the number of rounds.\<close>

definition sp_run ::
  "nat \<Rightarrow> nat \<Rightarrow> nat \<Rightarrow> nat \<Rightarrow> nat \<Rightarrow> nat \<Rightarrow> int list \<Rightarrow> (int list \<times> nat) option" where
  "sp_run irank imin_t imax_t jmin_t jmax_t n l =
     (let l0 = reset_diag n 0 (infinitize imin_t jmin_t imax_t jmax_t n l);
          lnew = l0
      in sp_loop irank imin_t jmin_t imax_t jmax_t n l0 lnew 0)"

text \<open>The source calls \<open>deinfinitize(imin_,imax_,jmin_,jmax_,n,l)\<close>, with the two middle
  bounds in the other order than the parameters; they are unused.\<close>

definition shortest_paths ::
  "nat \<Rightarrow> nat \<Rightarrow> nat \<Rightarrow> nat \<Rightarrow> nat \<Rightarrow> nat \<Rightarrow> int list \<Rightarrow> int list option" where
  "shortest_paths irank imin_t imax_t jmin_t jmax_t n l =
     (case sp_run irank imin_t imax_t jmin_t jmax_t n l of
        None \<Rightarrow> None
      | Some (l', rounds) \<Rightarrow> Some (deinfinitize imin_t imax_t jmin_t jmax_t n l'))"

subsection \<open>The graph of an adjacency matrix\<close>

text \<open>Entry \<open>(i,j)\<close>, at index \<open>j*n+i\<close>, is 1 when there is an edge from \<open>i\<close> to \<open>j\<close>.
  A directed path with \<open>m\<close> edges from \<open>i\<close> to \<open>j\<close> is a pair in the \<open>m\<close>-fold
  composition of the edge relation.\<close>

definition adjacency :: "nat \<Rightarrow> int list \<Rightarrow> bool" where
  "adjacency n l \<longleftrightarrow>
     length l = n * n \<and> (\<forall>c\<in>{0..<n * n}. l ! c = 0 \<or> l ! c = 1)
       \<and> (\<forall>i\<in>{0..<n}. l ! (i * n + i) = 0)"

definition edges :: "nat \<Rightarrow> int list \<Rightarrow> (nat \<times> nat) set" where
  "edges n l = {(i, j). i < n \<and> j < n \<and> l ! (j * n + i) = 1}"

definition reachable :: "nat \<Rightarrow> int list \<Rightarrow> nat \<Rightarrow> nat \<Rightarrow> bool" where
  "reachable n l i j \<longleftrightarrow> (\<exists>m. (i, j) \<in> edges n l ^^ m)"

definition hop_dist :: "nat \<Rightarrow> int list \<Rightarrow> nat \<Rightarrow> nat \<Rightarrow> nat" where
  "hop_dist n l i j = (LEAST m. (i, j) \<in> edges n l ^^ m)"

text \<open>The matrix after \<open>s\<close> squarings holds the distances of at most \<open>2^s\<close> edges and
  the sentinel \<open>n+1\<close> elsewhere.\<close>

definition target :: "nat \<Rightarrow> int list \<Rightarrow> nat \<Rightarrow> nat \<Rightarrow> nat \<Rightarrow> int" where
  "target n l s i j =
     (if reachable n l i j \<and> hop_dist n l i j \<le> 2 ^ s then int (hop_dist n l i j) else int n + 1)"

definition dist_upto :: "nat \<Rightarrow> int list \<Rightarrow> nat \<Rightarrow> int list \<Rightarrow> bool" where
  "dist_upto n l s L \<longleftrightarrow> length L = n * n \<and> (\<forall>i<n. \<forall>j<n. L ! (j * n + i) = target n l s i j)"

subsection \<open>The domain decomposition and the start of \<open>main\<close>\<close>

text \<open>The quotient \<open>/\<close> and the remainder \<open>%\<close> of C ints truncate towards zero.\<close>

definition c_div :: "int \<Rightarrow> int \<Rightarrow> int" where
  "c_div a b = sgn a * sgn b * (\<bar>a\<bar> div \<bar>b\<bar>)"

definition c_mod :: "int \<Rightarrow> int \<Rightarrow> int" where
  "c_mod a b = a - b * c_div a b"

text \<open>
  The block "Organize x" of \<open>main\<close> (the block "Organize y" is the same on \<open>ny\<close>, \<open>npy\<close>
  and \<open>jproc\<close>): from the size \<open>nx\<close>, the number of processes \<open>npx\<close> of the axis and the
  1-indexed coordinate \<open>iproc\<close> it computes \<open>imin_\<close> and \<open>imax_\<close>. The source writes
  \<open>q = floor(nx/npx)\<close>: the quotient of the two ints is already an int.
\<close>

definition decompose :: "int \<Rightarrow> int \<Rightarrow> int \<Rightarrow> int \<times> int" where
  "decompose nx npx iproc =
     (let imin = 0;
          q = c_div nx npx;
          r = c_mod nx npx
      in if iproc \<le> r
         then (let nx_t = q + 1; imin_t = imin + (iproc - 1) * (q + 1) in (imin_t, imin_t + nx_t))
         else (let nx_t = q; imin_t = imin + r * (q + 1) + (iproc - r - 1) * q
               in (imin_t, imin_t + nx_t)))"

text \<open>Process \<open>iproc\<close> of an axis owns index \<open>x\<close>.\<close>

definition owns :: "int \<Rightarrow> int \<Rightarrow> int \<Rightarrow> int \<Rightarrow> bool" where
  "owns n g iproc x \<longleftrightarrow> fst (decompose n g iproc) \<le> x \<and> x < snd (decompose n g iproc)"

text \<open>The first index after the ranges of the first \<open>k\<close> processes.\<close>

definition bound_at :: "int \<Rightarrow> int \<Rightarrow> int \<Rightarrow> int" where
  "bound_at n g k = k * (n div g) + min k (n mod g)"





subsection \<open>The random graph\<close>

text \<open>
  \<open>gen_graph\<close> draws from the generator of \<open>mt19937p.h\<close>, which is not part of the
  sources at hand: \<open>sgenrand\<close> (a seed to a generator state) and \<open>genrand\<close> (a state to
  a double and the next state) are arguments of the model, and so are the type of
  doubles and its comparison \<open>less_d\<close>.
\<close>

function gen_graph_i ::
  "('s \<Rightarrow> 'd \<times> 's) \<Rightarrow> ('d \<Rightarrow> 'd \<Rightarrow> bool) \<Rightarrow> nat \<Rightarrow> 'd \<Rightarrow> nat \<Rightarrow> nat \<Rightarrow> int list \<times> 's \<Rightarrow> int list \<times> 's" where
  "gen_graph_i genrand less_d n p j i (l, state) =
     (if i < n then
        (let (x, state') = genrand state
         in gen_graph_i genrand less_d n p j (Suc i)
              (l[j * n + i := (if less_d x p then 1 else 0)], state'))
      else (l, state))"
  by pat_completeness auto
termination
  by (relation "measure (\<lambda>(genrand, less_d, n, p, j, i, s). n - i)") auto

function gen_graph_j ::
  "('s \<Rightarrow> 'd \<times> 's) \<Rightarrow> ('d \<Rightarrow> 'd \<Rightarrow> bool) \<Rightarrow> nat \<Rightarrow> 'd \<Rightarrow> nat \<Rightarrow> int list \<times> 's \<Rightarrow> int list \<times> 's" where
  "gen_graph_j genrand less_d n p j (l, state) =
     (if j < n then
        (let (l', state') = gen_graph_i genrand less_d n p j 0 (l, state)
         in gen_graph_j genrand less_d n p (Suc j) (l'[j * n + j := 0], state'))
      else (l, state))"
  by pat_completeness auto
termination
  by (relation "measure (\<lambda>(genrand, less_d, n, p, j, s). n - j)") auto

definition gen_graph ::
  "(int \<Rightarrow> 's) \<Rightarrow> ('s \<Rightarrow> 'd \<times> 's) \<Rightarrow> ('d \<Rightarrow> 'd \<Rightarrow> bool) \<Rightarrow> nat \<Rightarrow> 'd \<Rightarrow> int list" where
  "gen_graph sgenrand genrand less_d n p =
     (let l = replicate (n * n) 0;
          state = sgenrand 10302011
      in fst (gen_graph_j genrand less_d n p 0 (l, state)))"

text \<open>The first \<open>m\<close> entries are 0 or 1.\<close>

definition bits :: "nat \<Rightarrow> int list \<Rightarrow> bool" where
  "bits m l \<longleftrightarrow> (\<forall>c<m. l ! c = 0 \<or> l ! c = 1)"

subsection \<open>The checksum\<close>

text \<open>
  \<open>fletcher16\<close> runs two sums modulo 255 over the first \<open>count\<close> entries and packs them
  into one int, the second sum in the bits from 8 upwards.
\<close>

function fletcher16_loop :: "int list \<Rightarrow> nat \<Rightarrow> nat \<Rightarrow> int \<times> int \<Rightarrow> int \<times> int" where
  "fletcher16_loop data count index (sum1, sum2) =
     (if index < count then
        (let sum1 = c_mod (sum1 + data ! index) 255;
             sum2 = c_mod (sum2 + sum1) 255
         in fletcher16_loop data count (Suc index) (sum1, sum2))
      else (sum1, sum2))"
  by pat_completeness auto
termination
  by (relation "measure (\<lambda>(data, count, index, s). count - index)") auto

definition fletcher16 :: "int list \<Rightarrow> nat \<Rightarrow> int" where
  "fletcher16 data count =
     (case fletcher16_loop data count 0 (0, 0) of (sum1, sum2) \<Rightarrow> push_bit 8 sum2 OR sum1)"

subsection \<open>\<open>shortest_paths\<close> on a grid of processes\<close>

text \<open>
  A process is its rank (counted from 1, as \<open>main\<close> passes it on) and the bounds
  \<open>imin_\<close>, \<open>imax_\<close>, \<open>jmin_\<close>, \<open>jmax_\<close> of its tile. Every process holds its own
  buffers \<open>l\<close> and \<open>lnew\<close>; the state of the run is the list of these pairs, in the
  order of the ranks.
\<close>

type_synonym proc = "nat \<times> nat \<times> nat \<times> nat \<times> nat"

text \<open>
  \<open>MPI_Allreduce\<close> with \<open>MPI_MIN\<close> or \<open>MPI_MAX\<close> over \<open>count\<close> ints: entry \<open>c\<close> of
  the result, the same on every process, is the operation folded over entry \<open>c\<close> of
  the send buffers of all processes.
\<close>

fun allreduce :: "(int \<Rightarrow> int \<Rightarrow> int) \<Rightarrow> nat \<Rightarrow> int list list \<Rightarrow> int list" where
  "allreduce f count [] = []"
| "allreduce f count (b # bs) = map (\<lambda>c. fold f (map (\<lambda>x. x ! c) bs) (b ! c)) [0..<count]"

text \<open>
  The process at the coordinates \<open>(cx, cy)\<close> of an \<open>npx\<close> by \<open>npy\<close> grid, with the tile
  that \<open>main\<close> computes for it; \<open>grid_procs\<close> lists the processes by rank, the
  coordinates of a rank taken row by row.
\<close>

definition proc_of :: "nat \<Rightarrow> nat \<Rightarrow> nat \<Rightarrow> nat \<Rightarrow> nat \<Rightarrow> proc" where
  "proc_of n npx npy cx cy =
     (case decompose (int n) (int npx) (int cx + 1) of
        (imin_t, imax_t) \<Rightarrow>
          (case decompose (int n) (int npy) (int cy + 1) of
             (jmin_t, jmax_t) \<Rightarrow>
               (cx * npy + cy + 1, nat imin_t, nat imax_t, nat jmin_t, nat jmax_t)))"

definition grid_procs :: "nat \<Rightarrow> nat \<Rightarrow> nat \<Rightarrow> proc list" where
  "grid_procs n npx npy =
     map (\<lambda>rank. proc_of n npx npy (rank div npy) (rank mod npy)) [0..<npx * npy]"

text \<open>
  One pass of the loop of \<open>shortest_paths\<close> on all processes: every process squares
  its tile into its own \<open>lnew\<close>, then the flags and the buffers \<open>lnew\<close> are reduced
  with \<open>MPI_MIN\<close>, the matrix into the \<open>l\<close> of every process.
\<close>

definition exec :: "nat \<Rightarrow> proc \<Rightarrow> int list \<times> int list \<Rightarrow> int \<times> int list" where
  "exec n p s =
     (case p of (irank, imin_t, imax_t, jmin_t, jmax_t) \<Rightarrow>
        (case s of (l, lnew) \<Rightarrow> square irank imin_t jmin_t imax_t jmax_t n l lnew))"

definition mp_round ::
  "nat \<Rightarrow> proc list \<Rightarrow> (int list \<times> int list) list \<Rightarrow> int \<times> (int list \<times> int list) list" where
  "mp_round n procs st =
     (let res = map2 (exec n) procs st;
          done = hd (allreduce min 1 (map (\<lambda>(mydone, lnew'). [mydone]) res));
          l' = allreduce min (n * n) (map (\<lambda>(mydone, lnew'). lnew') res)
      in (done, map (\<lambda>(mydone, lnew'). (l', lnew')) res))"

partial_function (option) mp_loop ::
  "nat \<Rightarrow> proc list \<Rightarrow> (int list \<times> int list) list \<Rightarrow> nat \<Rightarrow> ((int list \<times> int list) list \<times> nat) option" where
  "mp_loop n procs st rounds =
     (case mp_round n procs st of
        (done, st') \<Rightarrow>
          if done \<noteq> 0 then Some (st', Suc rounds) else mp_loop n procs st' (Suc rounds))"

declare mp_loop.simps [code]

text \<open>
  Before the loop every process rewrites its \<open>l\<close>, and \<open>lnew\<close> is the reduction of
  these with \<open>MPI_MAX\<close>; after it every process rewrites its \<open>l\<close> back.
\<close>

definition mp_init :: "nat \<Rightarrow> proc list \<Rightarrow> int list \<Rightarrow> (int list \<times> int list) list" where
  "mp_init n procs l =
     (let ls = map (\<lambda>(irank, imin_t, imax_t, jmin_t, jmax_t).
                      reset_diag n 0 (infinitize imin_t jmin_t imax_t jmax_t n l)) procs;
          lnew = allreduce max (n * n) ls
      in map (\<lambda>l0. (l0, lnew)) ls)"

definition mp_final :: "nat \<Rightarrow> proc list \<Rightarrow> (int list \<times> int list) list \<Rightarrow> int list list" where
  "mp_final n procs st =
     map2 (\<lambda>(irank, imin_t, imax_t, jmin_t, jmax_t) (l, lnew).
             deinfinitize imin_t imax_t jmin_t jmax_t n l) procs st"

definition mp_shortest_paths :: "nat \<Rightarrow> proc list \<Rightarrow> int list \<Rightarrow> int list list option" where
  "mp_shortest_paths n procs l =
     (case mp_loop n procs (mp_init n procs l) 0 of
        None \<Rightarrow> None
      | Some (st, rounds) \<Rightarrow> Some (mp_final n procs st))"

text \<open>
  The tiles of a list of processes lie inside the matrix and cover it; \<open>mp_rel\<close>
  relates the state of the processes to the matrix \<open>L\<close> of the single process: every
  \<open>l\<close> is \<open>L\<close>, and every \<open>lnew\<close> is \<open>L\<close> on the tile of its process and no smaller
  than \<open>L\<close> elsewhere.
\<close>

definition own :: "proc \<Rightarrow> nat \<Rightarrow> nat \<Rightarrow> bool" where
  "own p i j = (case p of (irank, imin_t, imax_t, jmin_t, jmax_t) \<Rightarrow> in_tile imin_t jmin_t imax_t jmax_t i j)"

definition valid_procs :: "nat \<Rightarrow> proc list \<Rightarrow> bool" where
  "valid_procs n procs \<longleftrightarrow>
     procs \<noteq> []
     \<and> (\<forall>p\<in>set procs. case p of (irank, imin_t, imax_t, jmin_t, jmax_t) \<Rightarrow> imax_t \<le> n \<and> jmax_t \<le> n)
     \<and> (\<forall>i<n. \<forall>j<n. \<exists>p\<in>set procs. own p i j)"

definition mp_rel :: "nat \<Rightarrow> proc list \<Rightarrow> int list \<Rightarrow> (int list \<times> int list) list \<Rightarrow> bool" where
  "mp_rel n procs L st \<longleftrightarrow>
     length st = length procs \<and> length L = n * n
     \<and> (\<forall>k<length procs.
           fst (st ! k) = L \<and> length (snd (st ! k)) = n * n
           \<and> (\<forall>c<n * n. L ! c \<le> snd (st ! k) ! c)
           \<and> (\<forall>i j. own (procs ! k) i j \<longrightarrow> snd (st ! k) ! (j * n + i) = L ! (j * n + i)))"


subsection \<open>The loops of \<open>square\<close> in closed form\<close>

declare square_k.simps [simp del] square_i.simps [simp del] square_j.simps [simp del]

lemma Min_insert_ge:
  "finite S \<Longrightarrow> (a::int) \<le> b \<Longrightarrow> Min (insert a (insert b S)) = Min (insert a S)"
  by (cases "S = {}") (auto simp: min_def)

lemma Min_insert_lt:
  "finite S \<Longrightarrow> (b::int) < a \<Longrightarrow> Min (insert a (insert b S)) = Min (insert b S)"
  by (cases "S = {}") (auto simp: min_def)

lemma square_k_closed:
  "square_k n l j i k (lij, d) =
     (Min (insert lij (cand n l i j ` {k..<n})),
      if \<exists>k'\<in>{k..<n}. cand n l i j k' < lij then 0 else d)"
proof (induction n l j i k "(lij, d)" arbitrary: lij d rule: square_k.induct)
  case (1 n l j i k lij d)
  show ?case
  proof (cases "k < n")
    case False
    then show ?thesis by (subst square_k.simps) simp
  next
    case True
    then have split: "{k..<n} = insert k {Suc k..<n}" by auto
    have fin: "finite (cand n l i j ` {Suc k..<n})" by simp
    show ?thesis
    proof (cases "cand n l i j k < lij")
      case lt: True
      have "square_k n l j i k (lij, d) = square_k n l j i (Suc k) (cand n l i j k, 0)"
        using True lt by (subst square_k.simps) (simp add: cand_def Let_def)
      also have "\<dots> = (Min (insert (cand n l i j k) (cand n l i j ` {Suc k..<n})), 0)"
        using "1.hyps"(1) [OF True refl refl refl] lt by (simp add: cand_def)
      also have "Min (insert (cand n l i j k) (cand n l i j ` {Suc k..<n}))
                 = Min (insert lij (cand n l i j ` {k..<n}))"
        unfolding split image_insert by (rule Min_insert_lt [OF fin lt, symmetric])
      finally show ?thesis using lt True by auto
    next
      case ge: False
      then have ge': "lij \<le> cand n l i j k" by simp
      have "square_k n l j i k (lij, d) = square_k n l j i (Suc k) (lij, d)"
        using True ge by (subst square_k.simps) (simp add: cand_def Let_def)
      also have "\<dots> = (Min (insert lij (cand n l i j ` {Suc k..<n})),
                       if \<exists>k'\<in>{Suc k..<n}. cand n l i j k' < lij then 0 else d)"
        using "1.hyps"(2) [OF True refl refl refl] ge by (simp add: cand_def)
      also have "Min (insert lij (cand n l i j ` {Suc k..<n}))
                 = Min (insert lij (cand n l i j ` {k..<n}))"
        unfolding split image_insert by (rule Min_insert_ge [OF fin ge', symmetric])
      also have "(\<exists>k'\<in>{Suc k..<n}. cand n l i j k' < lij) = (\<exists>k'\<in>{k..<n}. cand n l i j k' < lij)"
        unfolding split using ge by auto
      finally show ?thesis .
    qed
  qed
qed

lemma square_i_step:
  "i < imax_t \<Longrightarrow>
   square_i n l j imax_t i (lnew, d) =
     square_i n l j imax_t (Suc i)
       (lnew[j * n + i := newval n l lnew i j], if improves n l lnew i j then 0 else d)"
  by (subst square_i.simps) (simp add: square_k_closed newval_def improves_def)

lemma square_i_stop: "\<not> i < imax_t \<Longrightarrow> square_i n l j imax_t i (lnew, d) = (lnew, d)"
  by (subst square_i.simps) simp

lemma square_j_step:
  "j < jmax_t \<Longrightarrow>
   square_j n l imin_t imax_t jmax_t j s =
     square_j n l imin_t imax_t jmax_t (Suc j) (square_i n l j imax_t imin_t s)"
  by (cases s) (simp add: square_j.simps [of n l imin_t imax_t jmax_t j])

lemma square_j_stop: "\<not> j < jmax_t \<Longrightarrow> square_j n l imin_t imax_t jmax_t j s = s"
  by (cases s) (simp add: square_j.simps [of n l imin_t imax_t jmax_t j])

lemma newval_cong:
  "lnew' ! (j * n + i) = lnew ! (j * n + i) \<Longrightarrow> newval n l lnew' i j = newval n l lnew i j"
  by (simp add: newval_def)

lemma improves_cong:
  "lnew' ! (j * n + i) = lnew ! (j * n + i) \<Longrightarrow> improves n l lnew' i j = improves n l lnew i j"
  by (simp add: improves_def)

lemma square_i_length: "length (fst (square_i n l j imax_t i (lnew, d))) = length lnew"
proof (induction "imax_t - i" arbitrary: i lnew d)
  case 0
  then show ?case by (simp add: square_i_stop)
next
  case (Suc m)
  then have "i < imax_t" "m = imax_t - Suc i" by auto
  then show ?case using Suc.hyps(1) by (simp add: square_i_step)
qed

lemma square_i_other:
  "\<forall>i'. i \<le> i' \<and> i' < imax_t \<longrightarrow> c \<noteq> j * n + i' \<Longrightarrow>
   fst (square_i n l j imax_t i (lnew, d)) ! c = lnew ! c"
proof (induction "imax_t - i" arbitrary: i lnew d)
  case 0
  then show ?case by (simp add: square_i_stop)
next
  case (Suc m)
  then have lt: "i < imax_t" and m: "m = imax_t - Suc i" by auto
  have ne: "j * n + i \<noteq> c" using Suc.prems lt by auto
  have rest: "\<forall>i'. Suc i \<le> i' \<and> i' < imax_t \<longrightarrow> c \<noteq> j * n + i'" using Suc.prems by auto
  have "fst (square_i n l j imax_t i (lnew, d)) ! c = lnew[j * n + i := newval n l lnew i j] ! c"
    unfolding square_i_step [OF lt] by (rule Suc.hyps(1) [OF m rest])
  then show ?case using ne by simp
qed

lemma square_i_tile:
  "i \<le> i' \<Longrightarrow> i' < imax_t \<Longrightarrow> j * n + i' < length lnew \<Longrightarrow>
   fst (square_i n l j imax_t i (lnew, d)) ! (j * n + i') = newval n l lnew i' j"
proof (induction "imax_t - i" arbitrary: i lnew d)
  case 0
  then show ?case by simp
next
  case (Suc m)
  then have lt: "i < imax_t" and m: "m = imax_t - Suc i" by auto
  let ?lnew = "lnew[j * n + i := newval n l lnew i j]"
  show ?case
  proof (cases "i' = i")
    case True
    have "fst (square_i n l j imax_t (Suc i) (?lnew, if improves n l lnew i j then 0 else d))
            ! (j * n + i) = ?lnew ! (j * n + i)"
      by (rule square_i_other) auto
    then show ?thesis using True lt Suc.prems by (simp add: square_i_step)
  next
    case False
    then have "Suc i \<le> i'" using Suc.prems by simp
    moreover have "j * n + i' < length ?lnew" using Suc.prems by simp
    ultimately have "fst (square_i n l j imax_t (Suc i) (?lnew, if improves n l lnew i j then 0 else d))
            ! (j * n + i') = newval n l ?lnew i' j"
      using Suc.hyps(1) [OF m] Suc.prems(2) by blast
    moreover have "newval n l ?lnew i' j = newval n l lnew i' j"
      using False by (intro newval_cong) simp
    ultimately show ?thesis using lt by (simp add: square_i_step)
  qed
qed

lemma square_i_done:
  "snd (square_i n l j imax_t i (lnew, d)) =
     (if \<exists>i'\<in>{i..<imax_t}. improves n l lnew i' j then 0 else d)"
proof (induction "imax_t - i" arbitrary: i lnew d)
  case 0
  then show ?case by (simp add: square_i_stop)
next
  case (Suc m)
  then have lt: "i < imax_t" and m: "m = imax_t - Suc i" by auto
  let ?lnew = "lnew[j * n + i := newval n l lnew i j]"
  have split: "{i..<imax_t} = insert i {Suc i..<imax_t}" using lt by auto
  have same: "improves n l ?lnew i' j = improves n l lnew i' j" if "i' \<in> {Suc i..<imax_t}" for i'
    using that by (intro improves_cong) simp
  have "snd (square_i n l j imax_t i (lnew, d)) =
        (if \<exists>i'\<in>{Suc i..<imax_t}. improves n l ?lnew i' j then 0
         else if improves n l lnew i j then 0 else d)"
    using Suc.hyps(1) [OF m] lt by (simp add: square_i_step)
  also have "(\<exists>i'\<in>{Suc i..<imax_t}. improves n l ?lnew i' j)
             = (\<exists>i'\<in>{Suc i..<imax_t}. improves n l lnew i' j)"
    using same by blast
  finally show ?case unfolding split by auto
qed

lemma idx_inj: "i < n \<Longrightarrow> i' < n \<Longrightarrow> j * n + i = j' * n + i' \<Longrightarrow> j = j' \<and> i = (i'::nat)"
proof -
  assume a: "i < n" "i' < n" "j * n + i = j' * n + i'"
  have "i = (j * n + i) mod n" using a(1) by simp
  also have "\<dots> = (j' * n + i') mod n" by (simp only: a(3))
  also have "\<dots> = i'" using a(2) by simp
  finally have i: "i = i'" .
  then have "j * n = j' * n" using a(3) by simp
  moreover have "0 < n" using a(1) by simp
  ultimately have "j = j'" by simp
  then show ?thesis using i by simp
qed

lemma idx_neq: "i < n \<Longrightarrow> i' < n \<Longrightarrow> j \<noteq> j' \<or> i \<noteq> i' \<Longrightarrow> j * n + i \<noteq> j' * n + (i'::nat)"
  using idx_inj by blast

lemma idx_lt: "i < n \<Longrightarrow> j < m \<Longrightarrow> j * n + i < m * (n::nat)"
proof -
  assume a: "i < n" "j < m"
  have "j * n + i < Suc j * n" using a(1) by simp
  also have "\<dots> \<le> m * n" using a(2) by (intro mult_le_mono1) simp
  finally show ?thesis .
qed

lemma square_j_length: "length (fst (square_j n l imin_t imax_t jmax_t j (lnew, d))) = length lnew"
proof (induction "jmax_t - j" arbitrary: j lnew d)
  case 0
  then show ?case by (simp add: square_j_stop)
next
  case (Suc m)
  then have lt: "j < jmax_t" and m: "m = jmax_t - Suc j" by auto
  obtain lnew1 d1 where s1: "square_i n l j imax_t imin_t (lnew, d) = (lnew1, d1)"
    by (cases "square_i n l j imax_t imin_t (lnew, d)")
  have "length lnew1 = length lnew" using square_i_length [of n l j imax_t imin_t lnew d] s1 by simp
  then show ?case using Suc.hyps(1) [OF m, of lnew1 d1] lt s1 by (simp add: square_j_step)
qed

lemma square_j_other:
  "\<forall>i' j'. imin_t \<le> i' \<and> i' < imax_t \<and> j \<le> j' \<and> j' < jmax_t \<longrightarrow> c \<noteq> j' * n + i' \<Longrightarrow>
   fst (square_j n l imin_t imax_t jmax_t j (lnew, d)) ! c = lnew ! c"
proof (induction "jmax_t - j" arbitrary: j lnew d)
  case 0
  then show ?case by (simp add: square_j_stop)
next
  case (Suc m)
  then have lt: "j < jmax_t" and m: "m = jmax_t - Suc j" by auto
  obtain lnew1 d1 where s1: "square_i n l j imax_t imin_t (lnew, d) = (lnew1, d1)"
    by (cases "square_i n l j imax_t imin_t (lnew, d)")
  have row: "\<forall>i'. imin_t \<le> i' \<and> i' < imax_t \<longrightarrow> c \<noteq> j * n + i'" using Suc.prems lt by auto
  have "lnew1 ! c = lnew ! c" using square_i_other [OF row, of l lnew d] s1 by simp
  moreover have "\<forall>i' j'. imin_t \<le> i' \<and> i' < imax_t \<and> Suc j \<le> j' \<and> j' < jmax_t \<longrightarrow> c \<noteq> j' * n + i'"
    using Suc.prems by auto
  ultimately show ?case using Suc.hyps(1) [OF m, of lnew1 d1] lt s1 by (simp add: square_j_step)
qed

lemma square_j_tile:
  assumes "imax_t \<le> n" "jmax_t * n \<le> length lnew"
    and "imin_t \<le> i'" "i' < imax_t" "j \<le> j'" "j' < jmax_t"
  shows "fst (square_j n l imin_t imax_t jmax_t j (lnew, d)) ! (j' * n + i') = newval n l lnew i' j'"
  using assms
proof (induction "jmax_t - j" arbitrary: j lnew d)
  case 0
  then show ?case by simp
next
  case (Suc m)
  then have lt: "j < jmax_t" and m: "m = jmax_t - Suc j" by auto
  obtain lnew1 d1 where s1: "square_i n l j imax_t imin_t (lnew, d) = (lnew1, d1)"
    by (cases "square_i n l j imax_t imin_t (lnew, d)")
  have len1: "length lnew1 = length lnew" using square_i_length [of n l j imax_t imin_t lnew d] s1 by simp
  have i'n: "i' < n" using Suc.prems by simp
  have step: "square_j n l imin_t imax_t jmax_t j (lnew, d)
              = square_j n l imin_t imax_t jmax_t (Suc j) (lnew1, d1)"
    using lt s1 by (simp add: square_j_step)
  show ?case
  proof (cases "j' = j")
    case True
    have inr: "j * n + i' < length lnew"
      using idx_lt [OF i'n lt] Suc.prems(2) by simp
    have "lnew1 ! (j * n + i') = newval n l lnew i' j"
      using square_i_tile [OF Suc.prems(3,4) inr, of l d] s1 by simp
    moreover have "fst (square_j n l imin_t imax_t jmax_t (Suc j) (lnew1, d1)) ! (j * n + i')
                   = lnew1 ! (j * n + i')"
    proof (rule square_j_other, intro allI impI)
      fix i'' j''
      assume a: "imin_t \<le> i'' \<and> i'' < imax_t \<and> Suc j \<le> j'' \<and> j'' < jmax_t"
      then have "i'' < n" using Suc.prems(1) by simp
      moreover have "j \<noteq> j''" using a by simp
      ultimately show "j * n + i' \<noteq> j'' * n + i''" by (intro idx_neq [OF i'n]) simp_all
    qed
    ultimately show ?thesis using True step by simp
  next
    case False
    then have le: "Suc j \<le> j'" using Suc.prems by simp
    have "fst (square_j n l imin_t imax_t jmax_t (Suc j) (lnew1, d1)) ! (j' * n + i')
          = newval n l lnew1 i' j'"
      using Suc.hyps(1) [OF m Suc.prems(1) _ Suc.prems(3,4) le Suc.prems(6)] Suc.prems(2) len1
      by simp
    moreover have "newval n l lnew1 i' j' = newval n l lnew i' j'"
    proof (rule newval_cong)
      have "\<forall>i''. imin_t \<le> i'' \<and> i'' < imax_t \<longrightarrow> j' * n + i' \<noteq> j * n + i''"
      proof (intro allI impI)
        fix i''
        assume "imin_t \<le> i'' \<and> i'' < imax_t"
        then have "i'' < n" using Suc.prems(1) by simp
        then show "j' * n + i' \<noteq> j * n + i''" using False by (intro idx_neq [OF i'n]) simp_all
      qed
      then show "lnew1 ! (j' * n + i') = lnew ! (j' * n + i')"
        using square_i_other [of imin_t imax_t "j' * n + i'" j n l lnew d] s1 by simp
    qed
    ultimately show ?thesis using step by simp
  qed
qed

lemma square_j_done:
  assumes "imax_t \<le> n"
  shows "snd (square_j n l imin_t imax_t jmax_t j (lnew, d)) =
     (if \<exists>j'\<in>{j..<jmax_t}. \<exists>i'\<in>{imin_t..<imax_t}. improves n l lnew i' j' then 0 else d)"
proof (induction "jmax_t - j" arbitrary: j lnew d)
  case 0
  then show ?case by (simp add: square_j_stop)
next
  case (Suc m)
  then have lt: "j < jmax_t" and m: "m = jmax_t - Suc j" by auto
  obtain lnew1 d1 where s1: "square_i n l j imax_t imin_t (lnew, d) = (lnew1, d1)"
    by (cases "square_i n l j imax_t imin_t (lnew, d)")
  have d1: "d1 = (if \<exists>i'\<in>{imin_t..<imax_t}. improves n l lnew i' j then 0 else d)"
    using square_i_done [of n l j imax_t imin_t lnew d] s1 by simp
  have split: "{j..<jmax_t} = insert j {Suc j..<jmax_t}" using lt by auto
  have same: "improves n l lnew1 i' j' = improves n l lnew i' j'"
    if "j' \<in> {Suc j..<jmax_t}" "i' \<in> {imin_t..<imax_t}" for i' j'
  proof -
    have i'n: "i' < n" using that assms by simp
    have "\<forall>i''. imin_t \<le> i'' \<and> i'' < imax_t \<longrightarrow> j' * n + i' \<noteq> j * n + i''"
    proof (intro allI impI)
      fix i''
      assume "imin_t \<le> i'' \<and> i'' < imax_t"
      then have "i'' < n" using assms by simp
      moreover have "j' \<noteq> j" using that by simp
      ultimately show "j' * n + i' \<noteq> j * n + i''" by (intro idx_neq [OF i'n]) simp_all
    qed
    then have "lnew1 ! (j' * n + i') = lnew ! (j' * n + i')"
      using square_i_other [of imin_t imax_t "j' * n + i'" j n l lnew d] s1 by simp
    then show ?thesis by (rule improves_cong)
  qed
  have "snd (square_j n l imin_t imax_t jmax_t j (lnew, d)) =
        (if \<exists>j'\<in>{Suc j..<jmax_t}. \<exists>i'\<in>{imin_t..<imax_t}. improves n l lnew1 i' j' then 0 else d1)"
    using Suc.hyps(1) [OF m, of lnew1 d1] lt s1 by (simp add: square_j_step)
  also have "(\<exists>j'\<in>{Suc j..<jmax_t}. \<exists>i'\<in>{imin_t..<imax_t}. improves n l lnew1 i' j')
             = (\<exists>j'\<in>{Suc j..<jmax_t}. \<exists>i'\<in>{imin_t..<imax_t}. improves n l lnew i' j')"
    using same by blast
  finally show ?case unfolding split d1 by auto
qed

text \<open>The same facts for \<open>square\<close> itself.\<close>

lemma square_fst_snd:
  "fst (square irank imin_t jmin_t imax_t jmax_t n l lnew)
     = snd (square_j n l imin_t imax_t jmax_t jmin_t (lnew, 1))"
  "snd (square irank imin_t jmin_t imax_t jmax_t n l lnew)
     = fst (square_j n l imin_t imax_t jmax_t jmin_t (lnew, 1))"
  by (simp_all add: square_def case_prod_beta)

lemma square_length: "length (snd (square irank imin_t jmin_t imax_t jmax_t n l lnew)) = length lnew"
  using square_j_length [of n l imin_t imax_t jmax_t jmin_t lnew 1]
  by (simp add: square_fst_snd)

lemma square_outside:
  assumes "imax_t \<le> n" "i < n" "\<not> in_tile imin_t jmin_t imax_t jmax_t i j"
  shows "snd (square irank imin_t jmin_t imax_t jmax_t n l lnew) ! (j * n + i) = lnew ! (j * n + i)"
proof -
  have "\<forall>i' j'. imin_t \<le> i' \<and> i' < imax_t \<and> jmin_t \<le> j' \<and> j' < jmax_t \<longrightarrow> j * n + i \<noteq> j' * n + i'"
  proof (intro allI impI)
    fix i' j'
    assume a: "imin_t \<le> i' \<and> i' < imax_t \<and> jmin_t \<le> j' \<and> j' < jmax_t"
    then have "i' < n" using assms(1) by simp
    moreover have "j \<noteq> j' \<or> i \<noteq> i'" using a assms(3) unfolding in_tile_def by blast
    ultimately show "j * n + i \<noteq> j' * n + i'" by (intro idx_neq [OF assms(2)])
  qed
  then show ?thesis
    using square_j_other [of imin_t imax_t jmin_t jmax_t "j * n + i" n l lnew 1]
    by (simp add: square_fst_snd)
qed

lemma square_inside:
  assumes "imax_t \<le> n" "jmax_t * n \<le> length lnew" "in_tile imin_t jmin_t imax_t jmax_t i j"
  shows "snd (square irank imin_t jmin_t imax_t jmax_t n l lnew) ! (j * n + i) = newval n l lnew i j"
  using square_j_tile [OF assms(1,2), of imin_t i jmin_t j l 1] assms(3)
  by (simp add: square_fst_snd in_tile_def)

lemma square_flag:
  assumes "imax_t \<le> n"
  shows "fst (square irank imin_t jmin_t imax_t jmax_t n l lnew) =
     (if \<exists>i j. in_tile imin_t jmin_t imax_t jmax_t i j \<and> improves n l lnew i j then 0 else 1)"
proof -
  have "(\<exists>j'\<in>{jmin_t..<jmax_t}. \<exists>i'\<in>{imin_t..<imax_t}. improves n l lnew i' j')
        = (\<exists>i j. in_tile imin_t jmin_t imax_t jmax_t i j \<and> improves n l lnew i j)"
    unfolding in_tile_def Bex_def atLeastLessThan_iff by blast
  then show ?thesis
    using square_j_done [OF assms, of l imin_t jmax_t jmin_t lnew 1]
    by (simp add: square_fst_snd)
qed



subsection \<open>The loops of the infinity convention in closed form\<close>

declare infinitize_loop.simps [simp del] deinfinitize_loop.simps [simp del] reset_diag.simps [simp del]

lemma infinitize_loop_length: "length (infinitize_loop n i l) = length l"
proof (induction "n * n - i" arbitrary: i l)
  case 0
  then show ?case by (subst infinitize_loop.simps) simp
next
  case (Suc m)
  then have lt: "i < n * n" and m: "m = n * n - Suc i" by auto
  show ?case using Suc.hyps(1) [OF m] lt by (subst infinitize_loop.simps) simp
qed

lemma infinitize_loop_nth:
  "c < length l \<Longrightarrow> length l = n * n \<Longrightarrow>
   infinitize_loop n i l ! c = (if i \<le> c \<and> l ! c = 0 then int n + 1 else l ! c)"
proof (induction "n * n - i" arbitrary: i l)
  case 0
  then show ?case by (subst infinitize_loop.simps) simp
next
  case (Suc m)
  then have lt: "i < n * n" and m: "m = n * n - Suc i" by auto
  let ?l = "if l ! i = 0 then l[i := int n + 1] else l"
  have len: "c < length ?l" "length ?l = n * n" using Suc.prems by simp_all
  have "infinitize_loop n i l ! c = infinitize_loop n (Suc i) ?l ! c"
    using lt by (subst infinitize_loop.simps) simp
  also have "\<dots> = (if Suc i \<le> c \<and> ?l ! c = 0 then int n + 1 else ?l ! c)"
    by (rule Suc.hyps(1) [OF m len])
  also have "\<dots> = (if i \<le> c \<and> l ! c = 0 then int n + 1 else l ! c)"
    using Suc.prems(1) by (cases "c = i") (auto simp: nth_list_update)
  finally show ?case .
qed

lemma deinfinitize_loop_length: "length (deinfinitize_loop n i l) = length l"
proof (induction "n * n - i" arbitrary: i l)
  case 0
  then show ?case by (subst deinfinitize_loop.simps) simp
next
  case (Suc m)
  then have lt: "i < n * n" and m: "m = n * n - Suc i" by auto
  show ?case using Suc.hyps(1) [OF m] lt by (subst deinfinitize_loop.simps) simp
qed

lemma deinfinitize_loop_nth:
  "c < length l \<Longrightarrow> length l = n * n \<Longrightarrow>
   deinfinitize_loop n i l ! c = (if i \<le> c \<and> l ! c = int n + 1 then 0 else l ! c)"
proof (induction "n * n - i" arbitrary: i l)
  case 0
  then show ?case by (subst deinfinitize_loop.simps) simp
next
  case (Suc m)
  then have lt: "i < n * n" and m: "m = n * n - Suc i" by auto
  let ?l = "if l ! i = int n + 1 then l[i := 0] else l"
  have len: "c < length ?l" "length ?l = n * n" using Suc.prems by simp_all
  have "deinfinitize_loop n i l ! c = deinfinitize_loop n (Suc i) ?l ! c"
    using lt by (subst deinfinitize_loop.simps) simp
  also have "\<dots> = (if Suc i \<le> c \<and> ?l ! c = int n + 1 then 0 else ?l ! c)"
    by (rule Suc.hyps(1) [OF m len])
  also have "\<dots> = (if i \<le> c \<and> l ! c = int n + 1 then 0 else l ! c)"
    using Suc.prems(1) by (cases "c = i") (auto simp: nth_list_update)
  finally show ?case .
qed

lemma diag_in_range: "k * (n + 1) < n * n \<longleftrightarrow> k < (n::nat)"
proof
  assume "k < n"
  then have "k * (n + 1) < k * n + n" by simp
  also have "\<dots> = Suc k * n" by simp
  also have "\<dots> \<le> n * n" using \<open>k < n\<close> by (intro mult_le_mono1) simp
  finally show "k * (n + 1) < n * n" .
next
  assume a: "k * (n + 1) < n * n"
  show "k < n"
  proof (rule ccontr)
    assume "\<not> k < n"
    then have "n * (n + 1) \<le> k * (n + 1)" by (intro mult_le_mono1) simp
    then show False using a by simp
  qed
qed

lemma reset_diag_length: "length (reset_diag n (k * (n + 1)) l) = length l"
proof (induction "n - k" arbitrary: k l)
  case 0
  then have "\<not> k * (n + 1) < n * n" unfolding diag_in_range by simp
  then show ?case by (subst reset_diag.simps) simp
next
  case (Suc m)
  then have kn: "k < n" and m: "m = n - Suc k" by auto
  have lt: "k * (n + 1) < n * n" unfolding diag_in_range by (rule kn)
  have "reset_diag n (k * (n + 1)) l = reset_diag n (Suc k * (n + 1)) (l[k * (n + 1) := 0])"
    using lt by (subst reset_diag.simps) (simp add: add_ac)
  then show ?case using Suc.hyps(1) [OF m] by simp
qed

lemma reset_diag_nth:
  "c < length l \<Longrightarrow>
   reset_diag n (k * (n + 1)) l ! c
     = (if \<exists>i. k \<le> i \<and> i < n \<and> c = i * (n + 1) then 0 else l ! c)"
proof (induction "n - k" arbitrary: k l)
  case 0
  then have "\<not> k * (n + 1) < n * n" unfolding diag_in_range by simp
  then have "reset_diag n (k * (n + 1)) l = l" by (subst reset_diag.simps) simp
  then show ?case using 0 by auto
next
  case (Suc m)
  then have kn: "k < n" and m: "m = n - Suc k" by auto
  have lt: "k * (n + 1) < n * n" unfolding diag_in_range by (rule kn)
  let ?l = "l[k * (n + 1) := 0]"
  have "reset_diag n (k * (n + 1)) l = reset_diag n (Suc k * (n + 1)) ?l"
    using lt by (subst reset_diag.simps) (simp add: add_ac)
  then have "reset_diag n (k * (n + 1)) l ! c
        = (if \<exists>i. Suc k \<le> i \<and> i < n \<and> c = i * (n + 1) then 0 else ?l ! c)"
    using Suc.hyps(1) [OF m, of ?l] Suc.prems by simp
  also have "\<dots> = (if \<exists>i. k \<le> i \<and> i < n \<and> c = i * (n + 1) then 0 else l ! c)"
  proof (cases "c = k * (n + 1)")
    case True
    then have ex: "\<exists>i. k \<le> i \<and> i < n \<and> c = i * (n + 1)" using kn by blast
    have zero: "?l ! c = 0" using True Suc.prems by simp
    show ?thesis by (simp only: ex zero if_True if_cancel)
  next
    case False
    then have same: "?l ! c = l ! c" by simp
    have ex: "(\<exists>i. Suc k \<le> i \<and> i < n \<and> c = i * (n + 1)) = (\<exists>i. k \<le> i \<and> i < n \<and> c = i * (n + 1))"
      using False by (metis Suc_leD Suc_leI le_neq_implies_less)
    show ?thesis by (simp only: ex same)
  qed
  finally show ?case .
qed

lemma diag_cell: "i < n \<Longrightarrow> j < n \<Longrightarrow> (\<exists>k<n. j * n + i = k * (n + 1)) \<longleftrightarrow> i = (j::nat)"
proof
  assume a: "i < n" "j < n" "\<exists>k<n. j * n + i = k * (n + 1)"
  then obtain k where k: "k < n" "j * n + i = k * (n + 1)" by blast
  have "j * n + i = k * n + k" unfolding k(2) by (simp only: add_mult_distrib2 mult_1_right)
  then show "i = j" using idx_inj [OF a(1) k(1), of j k] by simp
next
  assume "i < n" "j < n" "i = j"
  then show "\<exists>k<n. j * n + i = k * (n + 1)" by (intro exI [of _ j]) simp
qed

text \<open>The matrix \<open>l\<close> at the start of the loop of \<open>shortest_paths\<close>.\<close>

lemma init_length:
  "length (reset_diag n 0 (infinitize imin_t jmin_t imax_t jmax_t n l)) = length l"
  using reset_diag_length [of n 0] by (simp add: infinitize_def infinitize_loop_length)

lemma init_nth:
  assumes "length l = n * n" "i < n" "j < n"
  shows "reset_diag n 0 (infinitize imin_t jmin_t imax_t jmax_t n l) ! (j * n + i)
     = (if i = j then 0 else if l ! (j * n + i) = 0 then int n + 1 else l ! (j * n + i))"
proof -
  have c: "j * n + i < n * n" using idx_lt [OF assms(2,3)] .
  have "reset_diag n 0 (infinitize imin_t jmin_t imax_t jmax_t n l) ! (j * n + i)
        = (if \<exists>k. k < n \<and> j * n + i = k * (n + 1) then 0
           else infinitize imin_t jmin_t imax_t jmax_t n l ! (j * n + i))"
    using reset_diag_nth [of "j * n + i" "infinitize imin_t jmin_t imax_t jmax_t n l" n 0] c assms(1)
    by (simp add: infinitize_def infinitize_loop_length)
  also have "(\<exists>k. k < n \<and> j * n + i = k * (n + 1)) \<longleftrightarrow> i = j"
    using diag_cell [OF assms(2,3)] by blast
  also have "infinitize imin_t jmin_t imax_t jmax_t n l ! (j * n + i)
        = (if l ! (j * n + i) = 0 then int n + 1 else l ! (j * n + i))"
    using infinitize_loop_nth [of "j * n + i" l n 0] c assms(1) by (simp add: infinitize_def)
  finally show ?thesis .
qed

subsection \<open>Paths and distances\<close>

lemma edges_range: "(i, j) \<in> edges n l \<Longrightarrow> i < n \<and> j < n"
  by (simp add: edges_def)

lemma relpow_edges_range:
  "(i, j) \<in> edges n l ^^ m \<Longrightarrow> i < n \<Longrightarrow> j < n"
  by (cases m) (auto dest: edges_range)

lemma reachable_range: "reachable n l i j \<Longrightarrow> i < n \<Longrightarrow> j < n"
  unfolding reachable_def using relpow_edges_range by blast

lemma reachable_dist: "reachable n l i j \<Longrightarrow> (i, j) \<in> edges n l ^^ hop_dist n l i j"
  unfolding reachable_def hop_dist_def by (rule LeastI_ex)

lemma dist_le: "(i, j) \<in> edges n l ^^ m \<Longrightarrow> hop_dist n l i j \<le> m"
  unfolding hop_dist_def by (rule Least_le)

lemma reachableI: "(i, j) \<in> edges n l ^^ m \<Longrightarrow> reachable n l i j"
  unfolding reachable_def by blast

lemma reachable_refl: "reachable n l i i"
  by (rule reachableI [where m = 0]) simp

lemma dist_refl: "hop_dist n l i i = 0"
  using dist_le [where m = 0 and i = i and j = i and n = n and l = l] by simp

lemma dist_zero: "reachable n l i j \<Longrightarrow> hop_dist n l i j = 0 \<Longrightarrow> i = j"
  using reachable_dist [of n l i j] by simp

lemma dist_triangle:
  assumes "reachable n l i k" "reachable n l k j"
  shows "reachable n l i j \<and> hop_dist n l i j \<le> hop_dist n l i k + hop_dist n l k j"
proof -
  have "(i, j) \<in> edges n l ^^ hop_dist n l i k O edges n l ^^ hop_dist n l k j"
    using reachable_dist [OF assms(1)] reachable_dist [OF assms(2)] by blast
  then have "(i, j) \<in> edges n l ^^ (hop_dist n l i k + hop_dist n l k j)"
    by (simp add: relpow_add)
  then show ?thesis using reachableI dist_le by blast
qed

lemma dist_split:
  assumes "reachable n l i j" "hop_dist n l i j = a + b"
  shows "\<exists>k. reachable n l i k \<and> reachable n l k j \<and> hop_dist n l i k = a \<and> hop_dist n l k j = b"
proof -
  have "(i, j) \<in> edges n l ^^ (a + b)" using reachable_dist [OF assms(1)] assms(2) by simp
  then obtain k where k: "(i, k) \<in> edges n l ^^ a" "(k, j) \<in> edges n l ^^ b"
    by (auto simp: relpow_add)
  have r: "reachable n l i k" "reachable n l k j" using k reachableI by blast+
  have le: "hop_dist n l i k \<le> a" "hop_dist n l k j \<le> b" using k dist_le by blast+
  have "a + b \<le> hop_dist n l i k + hop_dist n l k j"
    using dist_triangle [OF r] assms(2) by simp
  then have "hop_dist n l i k = a" "hop_dist n l k j = b" using le by simp_all
  then show ?thesis using r by blast
qed

lemma dist_less:
  assumes "reachable n l i j" "i < n"
  shows "hop_dist n l i j < n"
proof -
  have "{0..hop_dist n l i j} \<subseteq> hop_dist n l i ` {0..<n}"
  proof
    fix a assume "a \<in> {0..hop_dist n l i j}"
    then have "hop_dist n l i j = a + (hop_dist n l i j - a)" by simp
    then obtain k where k: "reachable n l i k" "hop_dist n l i k = a"
      using dist_split [OF assms(1)] by blast
    then have "k < n" using reachable_range assms(2) by blast
    then show "a \<in> hop_dist n l i ` {0..<n}" using k(2) by auto
  qed
  then have "card {0..hop_dist n l i j} \<le> card (hop_dist n l i ` {0..<n})"
    by (intro card_mono) simp_all
  also have "\<dots> \<le> card {0..<n}" by (rule card_image_le) simp
  finally show ?thesis by simp
qed

subsection \<open>One squaring doubles the length of the paths accounted for\<close>

lemma target_le: "i < n \<Longrightarrow> target n l s i j \<le> int n + 1"
  using dist_less [of n l i j] by (auto simp: target_def)

lemma target_nonneg: "0 \<le> target n l s i j"
  by (simp add: target_def)

lemma target_mono: "i < n \<Longrightarrow> target n l (Suc s) i j \<le> target n l s i j"
  using dist_less [of n l i j] by (auto simp: target_def)

lemma target_stable: "i < n \<Longrightarrow> n \<le> 2 ^ s \<Longrightarrow> target n l (Suc s) i j = target n l s i j"
  using dist_less [of n l i j] by (auto simp: target_def)

lemma target_final:
  "i < n \<Longrightarrow> n \<le> 2 ^ s \<Longrightarrow>
   target n l s i j = (if reachable n l i j then int (hop_dist n l i j) else int n + 1)"
  using dist_less [of n l i j] by (auto simp: target_def)

lemma target_cand:
  assumes "i < n" "k < n"
  shows "target n l (Suc s) i j \<le> target n l s i k + target n l s k j"
proof (cases "(reachable n l i k \<and> hop_dist n l i k \<le> 2 ^ s) \<and> (reachable n l k j \<and> hop_dist n l k j \<le> 2 ^ s)")
  case True
  then have "reachable n l i j" "hop_dist n l i j \<le> hop_dist n l i k + hop_dist n l k j"
    using dist_triangle by blast+
  moreover have "hop_dist n l i k + hop_dist n l k j \<le> 2 ^ Suc s" using True by simp
  ultimately show ?thesis using True by (simp add: target_def)
next
  case False
  then have "int n + 1 \<le> target n l s i k + target n l s k j"
    using target_nonneg [of n l s i k] target_nonneg [of n l s k j]
    by (auto simp: target_def)
  then show ?thesis using target_le [OF assms(1), of l "Suc s" j] by linarith
qed

lemma target_attained:
  assumes "i < n"
  shows "target n l (Suc s) i j = target n l s i j
       \<or> (\<exists>k<n. target n l (Suc s) i j = target n l s i k + target n l s k j)"
proof (cases "reachable n l i j \<and> hop_dist n l i j \<le> 2 ^ Suc s")
  case False
  then have "\<not> (reachable n l i j \<and> hop_dist n l i j \<le> 2 ^ s)" by auto
  then have "target n l s i j = int n + 1" unfolding target_def by (rule if_not_P)
  moreover have "target n l (Suc s) i j = int n + 1" unfolding target_def using False by (rule if_not_P)
  ultimately show ?thesis by simp
next
  case True
  let ?d = "hop_dist n l i j"
  have "?d = ?d div 2 + (?d - ?d div 2)" by simp
  then obtain k where k: "reachable n l i k" "reachable n l k j"
      "hop_dist n l i k = ?d div 2" "hop_dist n l k j = ?d - ?d div 2"
    using dist_split [of n l i j "?d div 2" "?d - ?d div 2"] True by blast
  have "k < n" using reachable_range [OF k(1) assms] .
  moreover have "?d div 2 \<le> 2 ^ s" "?d - ?d div 2 \<le> 2 ^ s" using True by auto
  then have "target n l s i k = int (?d div 2)" "target n l s k j = int (?d - ?d div 2)"
    using k by (simp_all add: target_def)
  then have "target n l (Suc s) i j = target n l s i k + target n l s k j"
    using True by (simp add: target_def)
  ultimately show ?thesis by blast
qed

lemma newval_target:
  assumes "dist_upto n l s L" "i < n" "j < n"
  shows "newval n L L i j = target n l (Suc s) i j"
  unfolding newval_def
proof (rule Min_eqI)
  show "finite (insert (L ! (j * n + i)) (cand n L i j ` {0..<n}))" by simp
next
  fix y assume "y \<in> insert (L ! (j * n + i)) (cand n L i j ` {0..<n})"
  then consider "y = L ! (j * n + i)" | k where "k < n" "y = cand n L i j k" by auto
  then show "target n l (Suc s) i j \<le> y"
  proof cases
    case 1
    then show ?thesis using assms target_mono [OF assms(2), of l s j] by (simp add: dist_upto_def)
  next
    case 2
    then have "y = target n l s i k + target n l s k j"
      using assms by (simp add: cand_def dist_upto_def)
    then show ?thesis using target_cand [OF assms(2) 2(1)] by simp
  qed
next
  have L: "L ! (j * n + i) = target n l s i j" using assms by (simp add: dist_upto_def)
  have c: "cand n L i j k = target n l s i k + target n l s k j" if "k < n" for k
    using assms that by (simp add: cand_def dist_upto_def)
  show "target n l (Suc s) i j \<in> insert (L ! (j * n + i)) (cand n L i j ` {0..<n})"
    using target_attained [OF assms(2), of l s j] L c by force
qed

subsection \<open>The loop of \<open>shortest_paths\<close> on one process\<close>

lemma newval_not_improves:
  "\<not> improves n l lnew i j \<Longrightarrow> newval n l lnew i j = lnew ! (j * n + i)"
  unfolding newval_def improves_def by (intro Min_eqI) auto

lemma improves_newval:
  "improves n l lnew i j \<longleftrightarrow> newval n l lnew i j < lnew ! (j * n + i)"
  unfolding newval_def improves_def by (subst Min_less_iff) auto

lemma cell_of_index:
  assumes "c < n * (n::nat)"
  shows "c mod n < n \<and> c div n < n \<and> c = (c div n) * n + c mod n"
proof -
  have n: "0 < n" using assms by (cases n) simp_all
  have "c div n < n" using assms n by (simp add: less_mult_imp_div_less)
  then show ?thesis using n by simp
qed

lemma in_tile_full: "in_tile 0 0 n n i j \<longleftrightarrow> i < n \<and> j < n"
  by (simp add: in_tile_def)

lemma flag_fixpoint:
  assumes "length L = n * n" "fst (square irank 0 0 n n n L L) \<noteq> 0"
  shows "snd (square irank 0 0 n n n L L) = L"
proof (rule nth_equalityI)
  show "length (snd (square irank 0 0 n n n L L)) = length L" by (rule square_length)
next
  fix c assume "c < length (snd (square irank 0 0 n n n L L))"
  then have c: "c < n * n" using assms(1) by (simp add: square_length)
  let ?i = "c mod n" and ?j = "c div n"
  have ij: "?i < n" "?j < n" "c = ?j * n + ?i" using cell_of_index [OF c] by simp_all
  have tile: "in_tile 0 0 n n ?i ?j" using ij by (simp add: in_tile_full)
  have "\<not> improves n L L ?i ?j"
    using assms(2) tile square_flag [of n n irank 0 0 n L L] by (auto split: if_splits)
  then have "newval n L L ?i ?j = L ! (?j * n + ?i)" by (rule newval_not_improves)
  moreover have "snd (square irank 0 0 n n n L L) ! (?j * n + ?i) = newval n L L ?i ?j"
    using square_inside [of n n n L 0 0 ?i ?j irank L] tile assms(1) by simp
  ultimately show "snd (square irank 0 0 n n n L L) ! c = L ! c" using ij(3) by simp
qed

lemma step_dist_upto:
  assumes "dist_upto n l s L"
  shows "dist_upto n l (Suc s) (snd (square irank 0 0 n n n L L))"
  unfolding dist_upto_def
proof (intro conjI allI impI)
  show "length (snd (square irank 0 0 n n n L L)) = n * n"
    using assms by (simp add: square_length dist_upto_def)
next
  fix i j assume ij: "i < n" "j < n"
  have "snd (square irank 0 0 n n n L L) ! (j * n + i) = newval n L L i j"
    using square_inside [of n n n L 0 0 i j irank L] ij assms
    by (simp add: in_tile_full dist_upto_def)
  then show "snd (square irank 0 0 n n n L L) ! (j * n + i) = target n l (Suc s) i j"
    using newval_target [OF assms ij] by simp
qed

lemma flag_stable:
  assumes "dist_upto n l s L" "n \<le> 2 ^ s"
  shows "fst (square irank 0 0 n n n L L) = 1"
proof -
  have "\<not> improves n L L i j" if "in_tile 0 0 n n i j" for i j
  proof -
    have ij: "i < n" "j < n" using that by (simp_all add: in_tile_full)
    have "newval n L L i j = target n l s i j"
      using newval_target [OF assms(1) ij] target_stable [OF ij(1) assms(2)] by simp
    also have "\<dots> = L ! (j * n + i)" using assms(1) ij by (simp add: dist_upto_def)
    finally show ?thesis by (simp add: improves_newval)
  qed
  then show ?thesis using square_flag [of n n irank 0 0 n L L] by auto
qed

lemma fixpoint_dist_upto:
  assumes "dist_upto n l s L" "snd (square irank 0 0 n n n L L) = L"
  shows "dist_upto n l (s + t) L"
proof (induction t)
  case 0
  then show ?case using assms(1) by simp
next
  case (Suc t)
  then show ?case using step_dist_upto [of n l "s + t" L irank] assms(2) by simp
qed

lemma sp_loop_unfold:
  "sp_loop irank imin_t jmin_t imax_t jmax_t n l lnew r =
     (if fst (square irank imin_t jmin_t imax_t jmax_t n l lnew) \<noteq> 0
      then Some (snd (square irank imin_t jmin_t imax_t jmax_t n l lnew), Suc r)
      else sp_loop irank imin_t jmin_t imax_t jmax_t n
             (snd (square irank imin_t jmin_t imax_t jmax_t n l lnew))
             (snd (square irank imin_t jmin_t imax_t jmax_t n l lnew)) (Suc r))"
  by (subst sp_loop.simps) (simp add: case_prod_beta Let_def)

lemma sp_loop_terminates:
  "dist_upto n l s L \<Longrightarrow> n \<le> 2 ^ (s + k) \<Longrightarrow>
   \<exists>M r'. sp_loop irank 0 0 n n n L L r = Some (M, r') \<and> r' \<le> r + k + 1
          \<and> (\<exists>s'. dist_upto n l s' M \<and> n \<le> 2 ^ s')"
proof (induction k arbitrary: s L r)
  case 0
  let ?M = "snd (square irank 0 0 n n n L L)"
  have flag: "fst (square irank 0 0 n n n L L) = 1" using flag_stable 0 by simp
  have "sp_loop irank 0 0 n n n L L r = Some (?M, Suc r)"
    by (subst sp_loop_unfold) (simp add: flag)
  moreover have "dist_upto n l (Suc s) ?M" using step_dist_upto [OF 0(1)] .
  moreover have "n \<le> 2 ^ Suc s" using 0(2) by simp
  ultimately show ?case by auto
next
  case (Suc k)
  let ?M = "snd (square irank 0 0 n n n L L)"
  show ?case
  proof (cases "fst (square irank 0 0 n n n L L) \<noteq> 0")
    case True
    have len: "length L = n * n" using Suc.prems(1) by (simp add: dist_upto_def)
    have fx: "?M = L" using flag_fixpoint [OF len True] .
    have "sp_loop irank 0 0 n n n L L r = Some (?M, Suc r)"
      using True by (subst sp_loop_unfold) simp
    moreover have "dist_upto n l (s + Suc k) ?M"
      using fixpoint_dist_upto [OF Suc.prems(1) fx, of "Suc k"] fx by simp
    ultimately show ?thesis using Suc.prems(2) by auto
  next
    case False
    have eq: "sp_loop irank 0 0 n n n L L r = sp_loop irank 0 0 n n n ?M ?M (Suc r)"
      using False by (subst sp_loop_unfold) simp
    have "n \<le> 2 ^ (Suc s + k)" using Suc.prems(2) by simp
    then obtain M r' where "sp_loop irank 0 0 n n n ?M ?M (Suc r) = Some (M, r')"
      "r' \<le> Suc r + k + 1" "\<exists>s'. dist_upto n l s' M \<and> n \<le> 2 ^ s'"
      using Suc.IH [OF step_dist_upto [OF Suc.prems(1), of irank], where r = "Suc r"] by blast
    then show ?thesis using eq by auto
  qed
qed

lemma init_dist_upto:
  assumes "adjacency n l"
  shows "dist_upto n l 0 (reset_diag n 0 (infinitize imin_t jmin_t imax_t jmax_t n l))"
  unfolding dist_upto_def
proof (intro conjI allI impI)
  show "length (reset_diag n 0 (infinitize imin_t jmin_t imax_t jmax_t n l)) = n * n"
    using assms by (simp add: init_length adjacency_def)
next
  fix i j assume ij: "i < n" "j < n"
  have len: "length l = n * n" using assms by (simp add: adjacency_def)
  have c: "j * n + i < n * n" using idx_lt [OF ij] .
  then have bit: "l ! (j * n + i) = 0 \<or> l ! (j * n + i) = 1" using assms by (simp add: adjacency_def)
  have init: "reset_diag n 0 (infinitize imin_t jmin_t imax_t jmax_t n l) ! (j * n + i)
     = (if i = j then 0 else if l ! (j * n + i) = 0 then int n + 1 else l ! (j * n + i))"
    by (rule init_nth [OF len ij])
  have tgt: "target n l 0 i j = (if i = j then 0 else if l ! (j * n + i) = 0 then int n + 1 else l ! (j * n + i))"
  proof (cases "i = j")
    case True
    then show ?thesis using reachable_refl [of n l i] dist_refl [of n l i] by (simp add: target_def)
  next
    case False
    show ?thesis
    proof (cases "l ! (j * n + i) = 1")
      case True
      then have e: "(i, j) \<in> edges n l ^^ 1" using ij by (simp add: edges_def)
      have r: "reachable n l i j" using reachableI [OF e] .
      have "hop_dist n l i j \<le> 1" using dist_le [OF e] .
      moreover have "hop_dist n l i j \<noteq> 0" using dist_zero [OF r] False by blast
      ultimately have "hop_dist n l i j = 1" by simp
      then show ?thesis using r True False by (simp add: target_def)
    next
      case no: False
      then have z: "l ! (j * n + i) = 0" using bit by simp
      have "\<not> (reachable n l i j \<and> hop_dist n l i j \<le> 2 ^ 0)"
      proof
        assume a: "reachable n l i j \<and> hop_dist n l i j \<le> 2 ^ 0"
        then have "hop_dist n l i j = 1" using dist_zero [of n l i j] False by (cases "hop_dist n l i j") auto
        then have "(i, j) \<in> edges n l" using reachable_dist [of n l i j] a by simp
        then show False using no by (simp add: edges_def)
      qed
      then have "target n l 0 i j = int n + 1" unfolding target_def by (rule if_not_P)
      then show ?thesis using False z by simp
    qed
  qed
  show "reset_diag n 0 (infinitize imin_t jmin_t imax_t jmax_t n l) ! (j * n + i) = target n l 0 i j"
    using init tgt by simp
qed

lemma sp_run_correct:
  assumes "adjacency n l"
  shows "\<exists>M r. sp_run irank 0 n 0 n n l = Some (M, r) \<and> r \<le> ceillog2 n + 1 \<and> length M = n * n
     \<and> (\<forall>i<n. \<forall>j<n. M ! (j * n + i)
            = (if reachable n l i j then int (hop_dist n l i j) else int n + 1))"
proof -
  let ?L = "reset_diag n 0 (infinitize 0 0 n n n l)"
  have "n \<le> 2 ^ (0 + ceillog2 n)" using le_two_power_ceillog2 [of n] by simp
  then obtain M r s' where res: "sp_loop irank 0 0 n n n ?L ?L 0 = Some (M, r)"
      "r \<le> 0 + ceillog2 n + 1" "dist_upto n l s' M" "n \<le> 2 ^ s'"
    using sp_loop_terminates [OF init_dist_upto [OF assms, of 0 0 n n],
        where k = "ceillog2 n" and irank = irank and r = 0] by blast
  have "M ! (j * n + i) = (if reachable n l i j then int (hop_dist n l i j) else int n + 1)"
    if "i < n" "j < n" for i j
    using res(3) that target_final [OF that(1) res(4)] by (simp add: dist_upto_def)
  moreover have "length M = n * n" using res(3) by (simp add: dist_upto_def)
  moreover have "sp_run irank 0 n 0 n n l = Some (M, r)"
    using res(1) by (simp add: sp_run_def)
  ultimately show ?thesis using res(2) by auto
qed

subsection \<open>The domain decomposition\<close>

lemma c_div_pos: "0 \<le> a \<Longrightarrow> 0 < b \<Longrightarrow> c_div a b = a div b"
  by (cases "a = 0") (simp_all add: c_div_def)

lemma c_mod_pos: "0 \<le> a \<Longrightarrow> 0 < b \<Longrightarrow> c_mod a b = a mod b"
  by (simp add: c_mod_def c_div_pos minus_mult_div_eq_mod)

lemma decompose_bound_at:
  assumes "0 \<le> n" "0 < g"
  shows "decompose n g iproc = (bound_at n g (iproc - 1), bound_at n g iproc)"
proof (cases "iproc \<le> n mod g")
  case True
  then show ?thesis using assms
    by (simp add: decompose_def bound_at_def c_div_pos c_mod_pos Let_def algebra_simps)
next
  case False
  then show ?thesis using assms
    by (simp add: decompose_def bound_at_def c_div_pos c_mod_pos Let_def algebra_simps)
qed

lemma bound_at_0: "0 \<le> n \<Longrightarrow> 0 < g \<Longrightarrow> bound_at n g 0 = 0"
  by (simp add: bound_at_def)

lemma bound_at_g: "0 \<le> n \<Longrightarrow> 0 < g \<Longrightarrow> bound_at n g g = n"
proof -
  assume a: "0 \<le> n" "0 < g"
  have "n mod g < g" using a by simp
  then have "bound_at n g g = g * (n div g) + n mod g" by (simp add: bound_at_def)
  then show ?thesis by simp
qed

lemma bound_at_mono: "0 \<le> n \<Longrightarrow> 0 < g \<Longrightarrow> a \<le> b \<Longrightarrow> bound_at n g a \<le> bound_at n g b"
proof -
  assume a: "0 \<le> n" "0 < g" "a \<le> b"
  have "0 \<le> n div g" using a by (simp add: pos_imp_zdiv_nonneg_iff)
  then have "a * (n div g) \<le> b * (n div g)" using a(3) by (rule mult_right_mono [rotated])
  moreover have "min a (n mod g) \<le> min b (n mod g)" using a(3) by simp
  ultimately show ?thesis by (simp add: bound_at_def)
qed

lemma bound_at_size:
  "bound_at n g k - bound_at n g (k - 1) = (if k \<le> n mod g then n div g + 1 else n div g)"
  by (simp add: bound_at_def algebra_simps)

lemma bound_at_exists:
  assumes "0 \<le> n" "0 < g" "0 \<le> x"
  shows "0 \<le> k \<Longrightarrow> x < bound_at n g k \<Longrightarrow> \<exists>ip. 1 \<le> ip \<and> ip \<le> k \<and> bound_at n g (ip - 1) \<le> x \<and> x < bound_at n g ip"
proof (induction k rule: int_ge_induct)
  case base
  then show ?case using assms by (simp add: bound_at_0)
next
  case (step k)
  show ?case
  proof (cases "x < bound_at n g k")
    case True
    then obtain ip where "1 \<le> ip" "ip \<le> k" "bound_at n g (ip - 1) \<le> x" "x < bound_at n g ip"
      using step.IH by blast
    then show ?thesis by (intro exI [of _ ip]) simp
  next
    case False
    then show ?thesis using step by (intro exI [of _ "k + 1"]) simp
  qed
qed

lemma owns_iff:
  "0 \<le> n \<Longrightarrow> 0 < g \<Longrightarrow> owns n g ip x \<longleftrightarrow> bound_at n g (ip - 1) \<le> x \<and> x < bound_at n g ip"
  by (simp add: owns_def decompose_bound_at)

lemma owns_exists:
  assumes "0 \<le> n" "0 < g" "0 \<le> x" "x < n"
  shows "\<exists>ip. 1 \<le> ip \<and> ip \<le> g \<and> owns n g ip x"
  using bound_at_exists [OF assms(1,2,3), of g] assms by (simp add: bound_at_g owns_iff)

lemma owns_unique:
  assumes "0 \<le> n" "0 < g" "owns n g ip x" "owns n g ip' x"
  shows "ip = ip'"
proof (rule ccontr)
  assume ne: "ip \<noteq> ip'"
  have o: "bound_at n g (ip - 1) \<le> x" "x < bound_at n g ip" "bound_at n g (ip' - 1) \<le> x" "x < bound_at n g ip'"
    using assms by (simp_all add: owns_iff)
  show False
  proof (cases "ip < ip'")
    case True
    then have "bound_at n g ip \<le> bound_at n g (ip' - 1)" using assms(1,2) by (intro bound_at_mono) simp_all
    then show False using o by simp
  next
    case False
    then have "bound_at n g ip' \<le> bound_at n g (ip - 1)" using ne assms(1,2) by (intro bound_at_mono) simp_all
    then show False using o by simp
  qed
qed

lemma owns_range:
  assumes "0 \<le> n" "0 < g" "1 \<le> ip" "ip \<le> g"
  shows "0 \<le> fst (decompose n g ip) \<and> fst (decompose n g ip) \<le> snd (decompose n g ip)
         \<and> snd (decompose n g ip) \<le> n"
proof -
  have "bound_at n g 0 \<le> bound_at n g (ip - 1)" using assms by (intro bound_at_mono) simp_all
  moreover have "bound_at n g (ip - 1) \<le> bound_at n g ip" using assms by (intro bound_at_mono) simp_all
  moreover have "bound_at n g ip \<le> bound_at n g g" using assms by (intro bound_at_mono) simp_all
  ultimately show ?thesis using assms by (simp add: decompose_bound_at bound_at_0 bound_at_g)
qed

lemma decompose_size:
  assumes "0 \<le> n" "0 < g"
  shows "snd (decompose n g ip) - fst (decompose n g ip)
         = (if ip \<le> n mod g then n div g + 1 else n div g)"
  using assms by (simp add: decompose_bound_at bound_at_size)

lemma axis_partition:
  assumes "1 \<le> n" "1 \<le> g" "g \<le> n"
  shows "(\<forall>ip\<in>{1..g}.
            snd (decompose n g ip) - fst (decompose n g ip)
              = (if ip \<le> c_mod n g then c_div n g + 1 else c_div n g)
          \<and> 1 \<le> snd (decompose n g ip) - fst (decompose n g ip)
          \<and> 0 \<le> fst (decompose n g ip) \<and> snd (decompose n g ip) \<le> n)
       \<and> (\<forall>x\<in>{0..<n}. \<exists>!ip. ip \<in> {1..g} \<and> owns n g ip x)
       \<and> (\<forall>ip\<in>{1..g}. \<forall>x. owns n g ip x \<longrightarrow> x \<in> {0..<n})"
proof -
  have n: "0 \<le> n" and g: "0 < g" using assms by simp_all
  have "0 < n div g" using assms by (simp add: pos_imp_zdiv_pos_iff)
  then have q: "1 \<le> n div g" by simp
  have size: "snd (decompose n g ip) - fst (decompose n g ip)
              = (if ip \<le> c_mod n g then c_div n g + 1 else c_div n g)" for ip
    using decompose_size [OF n g] by (simp add: c_div_pos [OF n g] c_mod_pos [OF n g])
  have one: "1 \<le> snd (decompose n g ip) - fst (decompose n g ip)" for ip
    unfolding size using q by (simp add: c_div_pos [OF n g])
  have range: "0 \<le> fst (decompose n g ip) \<and> snd (decompose n g ip) \<le> n" if "ip \<in> {1..g}" for ip
    using owns_range [OF n g, of ip] that by simp
  have uniq: "\<exists>!ip. ip \<in> {1..g} \<and> owns n g ip x" if x: "x \<in> {0..<n}" for x
  proof (rule ex_ex1I)
    show "\<exists>ip. ip \<in> {1..g} \<and> owns n g ip x"
      using owns_exists [OF n g, of x] x by auto
  next
    fix ip ip' assume "ip \<in> {1..g} \<and> owns n g ip x" "ip' \<in> {1..g} \<and> owns n g ip' x"
    then show "ip = ip'" using owns_unique [OF n g] by blast
  qed
  have inside: "x \<in> {0..<n}" if "ip \<in> {1..g}" "owns n g ip x" for ip x
    using owns_range [OF n g, of ip] that by (simp add: owns_def)
  show ?thesis using size one range uniq inside by blast
qed

subsection \<open>The loops of \<open>gen_graph\<close>\<close>

declare gen_graph_i.simps [simp del] gen_graph_j.simps [simp del]

lemma gen_graph_i_step:
  "i < n \<Longrightarrow>
   gen_graph_i genrand less_d n p j i (l, state) =
     gen_graph_i genrand less_d n p j (Suc i)
       (l[j * n + i := (if less_d (fst (genrand state)) p then 1 else 0)], snd (genrand state))"
  by (subst gen_graph_i.simps) (simp add: case_prod_beta)

lemma gen_graph_i_stop:
  "\<not> i < n \<Longrightarrow> gen_graph_i genrand less_d n p j i (l, state) = (l, state)"
  by (subst gen_graph_i.simps) simp

lemma gen_graph_i_inv:
  assumes "j < n" "length l = n * n" "length l' = n * n"
  shows "i \<le> n \<Longrightarrow> \<forall>c<j * n + i. l ! c = l' ! c \<Longrightarrow> bits (j * n + i) l \<Longrightarrow>
    (\<exists>r st. gen_graph_i genrand less_d n p j i (l, state) = (r, st)
        \<and> gen_graph_i genrand less_d n p j i (l', state) = (map (\<lambda>c. if c < j * n + n then r ! c else l' ! c) [0..<n * n], st)
        \<and> length r = n * n \<and> bits (j * n + n) r \<and> (\<forall>c<j * n + i. r ! c = l ! c))"
  using assms(2,3)
proof (induction "n - i" arbitrary: i l l' state)
  case 0
  then have i: "i = n" by simp
  have "l' = map (\<lambda>c. if c < j * n + n then l ! c else l' ! c) [0..<n * n]"
    using 0 i by (intro nth_equalityI) auto
  then show ?case using 0 i by (simp add: gen_graph_i_stop)
next
  case (Suc m)
  then have lt: "i < n" and m: "m = n - Suc i" by auto
  let ?v = "if less_d (fst (genrand state)) p then 1 else 0 :: int"
  let ?l = "l[j * n + i := ?v]" and ?l' = "l'[j * n + i := ?v]"
  have idx: "j * n + i < n * n" using idx_lt [OF lt assms(1)] .
  have a: "\<forall>c<j * n + Suc i. ?l ! c = ?l' ! c"
    using Suc.prems(2) idx Suc.prems(4,5) by (auto simp: nth_list_update less_Suc_eq)
  have b: "bits (j * n + Suc i) ?l"
    using Suc.prems(3) idx Suc.prems(4) by (auto simp: bits_def nth_list_update less_Suc_eq)
  have len: "length ?l = n * n" "length ?l' = n * n" using Suc.prems(4,5) by simp_all
  obtain r st where r: "gen_graph_i genrand less_d n p j (Suc i) (?l, snd (genrand state)) = (r, st)"
      "gen_graph_i genrand less_d n p j (Suc i) (?l', snd (genrand state))
         = (map (\<lambda>c. if c < j * n + n then r ! c else ?l' ! c) [0..<n * n], st)"
      "length r = n * n" "bits (j * n + n) r" "\<forall>c<j * n + Suc i. r ! c = ?l ! c"
    using Suc.hyps(1) [OF m _ a b len, of "snd (genrand state)"] lt by auto
  have "map (\<lambda>c. if c < j * n + n then r ! c else ?l' ! c) [0..<n * n]
        = map (\<lambda>c. if c < j * n + n then r ! c else l' ! c) [0..<n * n]"
    using lt by (intro map_cong) auto
  moreover have "\<forall>c<j * n + i. r ! c = l ! c" using r(5) by (auto simp: nth_list_update)
  ultimately show ?case using r lt by (simp add: gen_graph_i_step)
qed

lemma bits_update:
  assumes "bits m l" "v = 0 \<or> v = 1"
  shows "bits m (l[k := v])"
proof (cases "k < length l")
  case True
  then show ?thesis using assms by (auto simp: bits_def nth_list_update)
next
  case False
  then have "l[k := v] = l" by (simp add: list_update_beyond)
  then show ?thesis using assms(1) by simp
qed

lemma gen_graph_j_step:
  "j < n \<Longrightarrow>
   gen_graph_j genrand less_d n p j (l, state) =
     gen_graph_j genrand less_d n p (Suc j)
       ((fst (gen_graph_i genrand less_d n p j 0 (l, state)))[j * n + j := 0],
        snd (gen_graph_i genrand less_d n p j 0 (l, state)))"
  by (subst gen_graph_j.simps) (simp add: case_prod_beta)

lemma gen_graph_j_stop:
  "\<not> j < n \<Longrightarrow> gen_graph_j genrand less_d n p j (l, state) = (l, state)"
  by (subst gen_graph_j.simps) simp

lemma gen_graph_j_inv:
  "j \<le> n \<Longrightarrow> length l = n * n \<Longrightarrow> length l' = n * n \<Longrightarrow>
   \<forall>c<j * n. l ! c = l' ! c \<Longrightarrow> bits (j * n) l \<Longrightarrow> \<forall>j'<j. l ! (j' * n + j') = 0 \<Longrightarrow>
    (\<exists>r st. gen_graph_j genrand less_d n p j (l, state) = (r, st)
        \<and> gen_graph_j genrand less_d n p j (l', state) = (r, st)
        \<and> length r = n * n \<and> bits (n * n) r \<and> (\<forall>j'<n. r ! (j' * n + j') = 0))"
proof (induction "n - j" arbitrary: j l l' state)
  case 0
  then have j: "j = n" by simp
  have "l = l'" using 0 j by (intro nth_equalityI) auto
  then show ?case using 0 j by (simp add: gen_graph_j_stop)
next
  case (Suc m)
  then have lt: "j < n" and m: "m = n - Suc j" by auto
  obtain r1 st1 where r1: "gen_graph_i genrand less_d n p j 0 (l, state) = (r1, st1)"
      "gen_graph_i genrand less_d n p j 0 (l', state)
         = (map (\<lambda>c. if c < j * n + n then r1 ! c else l' ! c) [0..<n * n], st1)"
      "length r1 = n * n" "bits (j * n + n) r1" "\<forall>c<j * n + 0. r1 ! c = l ! c"
    using gen_graph_i_inv [OF lt Suc.prems(2,3), of 0 genrand less_d p state] Suc.prems(4,5)
    by auto
  let ?r1' = "map (\<lambda>c. if c < j * n + n then r1 ! c else l' ! c) [0..<n * n]"
  let ?l = "r1[j * n + j := 0]" and ?l' = "?r1'[j * n + j := 0]"
  have idx: "j * n + j < n * n" using idx_lt [OF lt lt] .
  have row: "Suc j * n \<le> n * n" using lt by (intro mult_le_mono1) simp
  have len: "length ?l = n * n" "length ?l' = n * n" using r1(3) by simp_all
  have a: "\<forall>c<Suc j * n. ?l ! c = ?l' ! c"
  proof (intro allI impI)
    fix c assume c: "c < Suc j * n"
    then have cn: "c < n * n" using row by simp
    have e: "?r1' ! c = r1 ! c" using c cn by (simp add: add.commute)
    show "?l ! c = ?l' ! c"
    proof (cases "j * n + j = c")
      case True
      then show ?thesis using cn r1(3) by simp
    next
      case False
      have "?l ! c = r1 ! c" by (rule nth_list_update_neq [OF False])
      moreover have "?l' ! c = ?r1' ! c" by (rule nth_list_update_neq [OF False])
      ultimately show ?thesis using e by simp
    qed
  qed
  have "bits (j * n + n) ?l" using r1(4) by (intro bits_update) simp_all
  then have b: "bits (Suc j * n) ?l" by (simp add: add.commute)
  have d: "\<forall>j'<Suc j. ?l ! (j' * n + j') = 0"
  proof (intro allI impI)
    fix j' assume j': "j' < Suc j"
    show "?l ! (j' * n + j') = 0"
    proof (cases "j' = j")
      case True
      then show ?thesis using idx r1(3) by simp
    next
      case False
      then have lt': "j' < j" using j' by simp
      then have "j' < n" using lt by simp
      then have below: "j' * n + j' < j * n" using idx_lt [of j' n j' j] lt' by simp
      then have "r1 ! (j' * n + j') = 0" using r1(5) Suc.prems(6) lt' by simp
      then show ?thesis using below by (simp add: nth_list_update)
    qed
  qed
  have "Suc j \<le> n" using lt by simp
  then obtain r st where "gen_graph_j genrand less_d n p (Suc j) (?l, st1) = (r, st)"
      "gen_graph_j genrand less_d n p (Suc j) (?l', st1) = (r, st)"
      "length r = n * n" "bits (n * n) r" "\<forall>j'<n. r ! (j' * n + j') = 0"
    using Suc.hyps(1) [OF m _ len a b d, of st1] by blast
  then show ?case using r1(1,2) lt by (simp add: gen_graph_j_step)
qed

lemma gen_graph_adjacency_any:
  assumes "length l0 = n * n"
  shows "adjacency n (gen_graph sgenrand genrand less_d n p)
       \<and> fst (gen_graph_j genrand less_d n p 0 (l0, sgenrand 10302011))
           = gen_graph sgenrand genrand less_d n p"
proof -
  obtain r st where r: "gen_graph_j genrand less_d n p 0 (replicate (n * n) 0, sgenrand 10302011) = (r, st)"
      "gen_graph_j genrand less_d n p 0 (l0, sgenrand 10302011) = (r, st)"
      "length r = n * n" "bits (n * n) r" "\<forall>j'<n. r ! (j' * n + j') = 0"
    using gen_graph_j_inv [of 0 n "replicate (n * n) 0" l0 genrand less_d p "sgenrand 10302011"] assms
    by (auto simp: bits_def)
  have "gen_graph sgenrand genrand less_d n p = r" using r(1) by (simp add: gen_graph_def)
  then show ?thesis using r by (simp add: adjacency_def bits_def)
qed


subsection \<open>The processes of a grid run in lockstep with the single process\<close>

lemma allreduce_length: "bufs \<noteq> [] \<Longrightarrow> length (allreduce f count bufs) = count"
  by (cases bufs) simp_all

lemma allreduce_min_nth:
  "bufs \<noteq> [] \<Longrightarrow> c < count \<Longrightarrow> allreduce min count bufs ! c = Min ((\<lambda>x. x ! c) ` set bufs)"
  by (cases bufs) (simp_all add: Min.set_eq_fold [symmetric])

lemma allreduce_max_nth:
  "bufs \<noteq> [] \<Longrightarrow> c < count \<Longrightarrow> allreduce max count bufs ! c = Max ((\<lambda>x. x ! c) ` set bufs)"
  by (cases bufs) (simp_all add: Max.set_eq_fold [symmetric])


lemma newval_le: "newval n l lnew i j \<le> lnew ! (j * n + i)"
  by (simp add: newval_def)

lemma exec_length: "length (snd (exec n p (l, lnew))) = length lnew"
  by (cases p) (simp add: exec_def square_length)

lemma exec_inside:
  assumes "case p of (irank, imin_t, imax_t, jmin_t, jmax_t) \<Rightarrow> imax_t \<le> n \<and> jmax_t \<le> n"
    and "length lnew = n * n" "own p i j"
  shows "snd (exec n p (l, lnew)) ! (j * n + i) = newval n l lnew i j"
proof -
  obtain irank imin_t imax_t jmin_t jmax_t where p: "p = (irank, imin_t, imax_t, jmin_t, jmax_t)"
    by (cases p) auto
  have b: "imax_t \<le> n" "jmax_t \<le> n" using assms(1) p by simp_all
  have "jmax_t * n \<le> length lnew" using b(2) assms(2) by simp
  then show ?thesis using square_inside [OF b(1), of jmax_t lnew imin_t jmin_t i j irank l] assms(3) p
    by (simp add: exec_def own_def)
qed

lemma exec_outside:
  assumes "case p of (irank, imin_t, imax_t, jmin_t, jmax_t) \<Rightarrow> imax_t \<le> n \<and> jmax_t \<le> n"
    and "i < n" "\<not> own p i j"
  shows "snd (exec n p (l, lnew)) ! (j * n + i) = lnew ! (j * n + i)"
proof -
  obtain irank imin_t imax_t jmin_t jmax_t where p: "p = (irank, imin_t, imax_t, jmin_t, jmax_t)"
    by (cases p) auto
  have b: "imax_t \<le> n" using assms(1) p by simp
  show ?thesis using square_outside [OF b assms(2), of imin_t jmin_t jmax_t j irank l lnew] assms(3) p
    by (simp add: exec_def own_def)
qed

lemma exec_flag:
  assumes "case p of (irank, imin_t, imax_t, jmin_t, jmax_t) \<Rightarrow> imax_t \<le> n \<and> jmax_t \<le> n"
  shows "fst (exec n p (l, lnew)) = (if \<exists>i j. own p i j \<and> improves n l lnew i j then 0 else 1)"
proof -
  obtain irank imin_t imax_t jmin_t jmax_t where p: "p = (irank, imin_t, imax_t, jmin_t, jmax_t)"
    by (cases p) auto
  have b: "imax_t \<le> n" using assms(1) p by simp
  show ?thesis using square_flag [OF b, of irank imin_t jmin_t jmax_t l lnew] p
    by (simp add: exec_def own_def)
qed

lemma own_range:
  assumes "case p of (irank, imin_t, imax_t, jmin_t, jmax_t) \<Rightarrow> imax_t \<le> n \<and> jmax_t \<le> n"
    and "own p i j"
  shows "i < n \<and> j < n"
  using assms by (cases p) (auto simp: own_def in_tile_def)

lemma valid_procs_cover:
  assumes "valid_procs n procs" "i < n" "j < n"
  shows "\<exists>k<length procs. own (procs ! k) i j"
proof -
  have "\<exists>p\<in>set procs. own p i j" using assms unfolding valid_procs_def by blast
  then show ?thesis by (metis in_set_conv_nth)
qed

text \<open>One round of the processes against one round of the single process.\<close>

lemma mp_round_step:
  assumes v: "valid_procs n procs" and r: "mp_rel n procs L st"
  shows "fst (mp_round n procs st) = fst (square irank 0 0 n n n L L)
       \<and> mp_rel n procs (snd (square irank 0 0 n n n L L)) (snd (mp_round n procs st))"
proof -
  let ?P = "length procs"
  let ?res = "map2 (exec n) procs st"
  let ?M = "snd (square irank 0 0 n n n L L)"
  have lenst: "length st = ?P" and lenL: "length L = n * n" using r by (simp_all add: mp_rel_def)
  have P: "0 < ?P" using v by (simp add: valid_procs_def)
  have lenres: "length ?res = ?P" using lenst by simp
  have resk: "?res ! k = exec n (procs ! k) (L, snd (st ! k))" if "k < ?P" for k
  proof -
    have "fst (st ! k) = L" using r that by (simp add: mp_rel_def)
    then have "st ! k = (L, snd (st ! k))" by (metis prod.collapse)
    then show ?thesis using that lenst by simp
  qed
  have bnd: "case procs ! k of (irank, imin_t, imax_t, jmin_t, jmax_t) \<Rightarrow> imax_t \<le> n \<and> jmax_t \<le> n"
    if "k < ?P" for k
    using v that by (simp add: valid_procs_def)
  have lnk: "length (snd (st ! k)) = n * n" if "k < ?P" for k
    using r that by (simp add: mp_rel_def)
  have above: "L ! c \<le> snd (st ! k) ! c" if "k < ?P" "c < n * n" for k c
    using r that by (simp add: mp_rel_def)
  have agree: "snd (st ! k) ! (j * n + i) = L ! (j * n + i)" if "k < ?P" "own (procs ! k) i j" for k i j
    using r that by (simp add: mp_rel_def)
  have Mcell: "?M ! (j * n + i) = newval n L L i j" if "i < n" "j < n" for i j
    using square_inside [of n n n L 0 0 i j irank L] that lenL by (simp add: in_tile_full)
  have lenM: "length ?M = n * n" using lenL by (simp add: square_length)
  \<comment> \<open>what process k leaves in its lnew\<close>
  have own_cell: "snd (?res ! k) ! (j * n + i) = ?M ! (j * n + i)"
    if "k < ?P" "own (procs ! k) i j" for k i j
  proof -
    have ij: "i < n" "j < n" using own_range [OF bnd [OF that(1)] that(2)] by simp_all
    have "snd (?res ! k) ! (j * n + i) = newval n L (snd (st ! k)) i j"
      using exec_inside [OF bnd [OF that(1)] lnk [OF that(1)] that(2)] resk [OF that(1)] by simp
    also have "\<dots> = newval n L L i j"
      using agree [OF that] by (rule newval_cong)
    finally show ?thesis using Mcell [OF ij] by simp
  qed
  have other_cell: "?M ! (j * n + i) \<le> snd (?res ! k) ! (j * n + i)"
    if "k < ?P" "i < n" "j < n" for k i j
  proof (cases "own (procs ! k) i j")
    case True
    then show ?thesis using own_cell [OF that(1)] by simp
  next
    case False
    have "snd (?res ! k) ! (j * n + i) = snd (st ! k) ! (j * n + i)"
      using exec_outside [OF bnd [OF that(1)] that(2) False] resk [OF that(1)] by simp
    moreover have "L ! (j * n + i) \<le> snd (st ! k) ! (j * n + i)"
      using above [OF that(1) idx_lt [OF that(2,3)]] .
    moreover have "?M ! (j * n + i) \<le> L ! (j * n + i)"
      using Mcell [OF that(2,3)] newval_le [of n L L i j] by simp
    ultimately show ?thesis by simp
  qed
  \<comment> \<open>the merged matrix\<close>
  let ?bufs = "map (\<lambda>(mydone, lnew'). lnew') ?res"
  have bufs: "?bufs = map snd ?res" by (simp add: case_prod_beta)
  have bufs_ne: "?bufs \<noteq> []" using P lenres by auto
  have merged: "allreduce min (n * n) ?bufs = ?M"
  proof (rule nth_equalityI)
    show "length (allreduce min (n * n) ?bufs) = length ?M"
      using allreduce_length [OF bufs_ne] lenM by simp
  next
    fix c assume "c < length (allreduce min (n * n) ?bufs)"
    then have c: "c < n * n" using allreduce_length [OF bufs_ne] by simp
    let ?i = "c mod n" and ?j = "c div n"
    have ij: "?i < n" "?j < n" "c = ?j * n + ?i" using cell_of_index [OF c] by simp_all
    obtain k0 where k0: "k0 < ?P" "own (procs ! k0) ?i ?j"
      using valid_procs_cover [OF v ij(1,2)] by blast
    have "Min ((\<lambda>x. x ! c) ` set ?bufs) = ?M ! c"
    proof (rule Min_eqI)
      show "finite ((\<lambda>x. x ! c) ` set ?bufs)" by simp
    next
      fix y assume "y \<in> (\<lambda>x. x ! c) ` set ?bufs"
      then obtain k where k: "k < ?P" "y = snd (?res ! k) ! c"
        unfolding bufs using lenres by (auto simp: in_set_conv_nth)
      then show "?M ! c \<le> y" using other_cell [OF k(1) ij(1,2)] ij(3) by simp
    next
      have a: "?M ! c = snd (?res ! k0) ! c" using own_cell [OF k0] ij(3) by simp
      have b: "snd (?res ! k0) \<in> set ?bufs"
        unfolding bufs using k0(1) lenres by (metis (no_types, lifting) length_map nth_map nth_mem)
      show "?M ! c \<in> (\<lambda>x. x ! c) ` set ?bufs"
        by (rule image_eqI [where x = "snd (?res ! k0)"]) (rule a, rule b)
    qed
    then show "allreduce min (n * n) ?bufs ! c = ?M ! c"
      using allreduce_min_nth [OF bufs_ne c] by simp
  qed
  \<comment> \<open>the flag\<close>
  let ?F = "fst (square irank 0 0 n n n L L)"
  have F: "?F = (if \<exists>i j. in_tile 0 0 n n i j \<and> improves n L L i j then 0 else 1)"
    by (rule square_flag) simp
  have flagk: "fst (?res ! k) = (if \<exists>i j. own (procs ! k) i j \<and> improves n L L i j then 0 else 1)"
    if "k < ?P" for k
  proof -
    have "improves n L (snd (st ! k)) i j = improves n L L i j" if "own (procs ! k) i j" for i j
      using agree [OF \<open>k < ?P\<close> that] by (rule improves_cong)
    then have "(\<exists>i j. own (procs ! k) i j \<and> improves n L (snd (st ! k)) i j)
             = (\<exists>i j. own (procs ! k) i j \<and> improves n L L i j)" by blast
    then show ?thesis using exec_flag [OF bnd [OF that], of L "snd (st ! k)"] resk [OF that] by simp
  qed
  let ?flags = "map (\<lambda>(mydone, lnew'). [mydone]) ?res"
  have flags: "?flags = map (\<lambda>x. [fst x]) ?res" by (simp add: case_prod_beta)
  have flags_ne: "?flags \<noteq> []" using P lenres by auto
  have "length (allreduce min 1 ?flags) = 1" by (rule allreduce_length [OF flags_ne])
  then have "allreduce min 1 ?flags \<noteq> []" by (metis length_0_conv zero_neq_one)
  then have "hd (allreduce min 1 ?flags) = allreduce min 1 ?flags ! 0" by (rule hd_conv_nth)
  also have "\<dots> = Min ((\<lambda>x. x ! 0) ` set ?flags)"
    using allreduce_min_nth [OF flags_ne, of 0 1] by simp
  also have "\<dots> = ?F"
  proof (rule Min_eqI)
    show "finite ((\<lambda>x. x ! 0) ` set ?flags)" by simp
  next
    fix y assume "y \<in> (\<lambda>x. x ! 0) ` set ?flags"
    then obtain k where k: "k < ?P" "y = fst (?res ! k)"
      unfolding flags using lenres by (auto simp: in_set_conv_nth)
    have "(\<exists>i j. own (procs ! k) i j \<and> improves n L L i j) \<Longrightarrow> (\<exists>i j. in_tile 0 0 n n i j \<and> improves n L L i j)"
      using own_range [OF bnd [OF k(1)]] by (auto simp: in_tile_full)
    then show "?F \<le> y" unfolding F k(2) flagk [OF k(1)] by auto
  next
    have "\<exists>k<?P. fst (?res ! k) = ?F"
    proof (cases "\<exists>i j. in_tile 0 0 n n i j \<and> improves n L L i j")
      case True
      then obtain i j where ij: "i < n" "j < n" "improves n L L i j" by (auto simp: in_tile_full)
      obtain k0 where k0: "k0 < ?P" "own (procs ! k0) i j"
        using valid_procs_cover [OF v ij(1,2)] by blast
      have "fst (?res ! k0) = 0" unfolding flagk [OF k0(1)] using k0(2) ij(3) by auto
      then show ?thesis using True F k0(1) by auto
    next
      case False
      have "\<not> (\<exists>i j. own (procs ! 0) i j \<and> improves n L L i j)"
        using False own_range [OF bnd [OF P]] by (auto simp: in_tile_full)
      then have "fst (?res ! 0) = 1" unfolding flagk [OF P] by simp
      then show ?thesis using False F P by auto
    qed
    then obtain k where k: "k < ?P" "fst (?res ! k) = ?F" by blast
    have b: "[fst (?res ! k)] \<in> set ?flags"
      unfolding flags using k(1) lenres by (metis (no_types, lifting) length_map nth_map nth_mem)
    have a: "?F = [fst (?res ! k)] ! 0" using k(2) by simp
    show "?F \<in> (\<lambda>x. x ! 0) ` set ?flags"
      by (rule image_eqI [where x = "[fst (?res ! k)]"]) (rule a, rule b)
  qed
  finally have flag: "hd (allreduce min 1 ?flags) = ?F" .
  \<comment> \<open>the new state\<close>
  have round: "mp_round n procs st = (?F, map (\<lambda>(mydone, lnew'). (?M, lnew')) ?res)"
    using flag merged by (simp add: mp_round_def Let_def)
  have "mp_rel n procs ?M (map (\<lambda>(mydone, lnew'). (?M, lnew')) ?res)"
    unfolding mp_rel_def
  proof (intro conjI allI impI)
    show "length (map (\<lambda>(mydone, lnew'). (?M, lnew')) ?res) = ?P" using lenres by simp
    show "length ?M = n * n" by (rule lenM)
  next
    fix k assume k: "k < ?P"
    have nk: "map (\<lambda>(mydone, lnew'). (?M, lnew')) ?res ! k = (?M, snd (?res ! k))"
      using k lenres by (simp add: case_prod_beta)
    show "fst (map (\<lambda>(mydone, lnew'). (?M, lnew')) ?res ! k) = ?M" using nk by simp
    show "length (snd (map (\<lambda>(mydone, lnew'). (?M, lnew')) ?res ! k)) = n * n"
      using nk resk [OF k] exec_length [of n "procs ! k" L "snd (st ! k)"] lnk [OF k] by simp
  next
    fix k c assume k: "k < ?P" and c: "c < n * n"
    have nk: "map (\<lambda>(mydone, lnew'). (?M, lnew')) ?res ! k = (?M, snd (?res ! k))"
      using k lenres by (simp add: case_prod_beta)
    have ij: "c mod n < n" "c div n < n" "c = (c div n) * n + c mod n"
      using cell_of_index [OF c] by simp_all
    show "?M ! c \<le> snd (map (\<lambda>(mydone, lnew'). (?M, lnew')) ?res ! k) ! c"
      using other_cell [OF k ij(1,2)] ij(3) nk by simp
  next
    fix k i j assume k: "k < ?P" and o: "own (procs ! k) i j"
    have nk: "map (\<lambda>(mydone, lnew'). (?M, lnew')) ?res ! k = (?M, snd (?res ! k))"
      using k lenres by (simp add: case_prod_beta)
    show "snd (map (\<lambda>(mydone, lnew'). (?M, lnew')) ?res ! k) ! (j * n + i) = ?M ! (j * n + i)"
      using own_cell [OF k o] nk by simp
  qed
  then show ?thesis using round by simp
qed


lemma mp_loop_unfold:
  "mp_loop n procs st r =
     (if fst (mp_round n procs st) \<noteq> 0 then Some (snd (mp_round n procs st), Suc r)
      else mp_loop n procs (snd (mp_round n procs st)) (Suc r))"
  by (subst mp_loop.simps) (simp add: case_prod_beta)

lemma mp_loop_lockstep:
  assumes v: "valid_procs n procs"
  shows "mp_rel n procs L st \<Longrightarrow> dist_upto n l s L \<Longrightarrow> n \<le> 2 ^ (s + k) \<Longrightarrow>
   \<exists>M r' st'. sp_loop irank 0 0 n n n L L r = Some (M, r')
          \<and> mp_loop n procs st r = Some (st', r') \<and> mp_rel n procs M st'"
proof (induction k arbitrary: s L st r)
  case 0
  let ?M = "snd (square irank 0 0 n n n L L)"
  have flag: "fst (square irank 0 0 n n n L L) = 1" using flag_stable 0 by simp
  have step: "fst (mp_round n procs st) = 1" "mp_rel n procs ?M (snd (mp_round n procs st))"
    using mp_round_step [OF v 0(1), of irank] flag by simp_all
  have "sp_loop irank 0 0 n n n L L r = Some (?M, Suc r)"
    by (subst sp_loop_unfold) (simp add: flag)
  moreover have "mp_loop n procs st r = Some (snd (mp_round n procs st), Suc r)"
    by (subst mp_loop_unfold) (simp add: step(1))
  ultimately show ?case using step(2) by blast
next
  case (Suc k)
  let ?M = "snd (square irank 0 0 n n n L L)"
  have step: "fst (mp_round n procs st) = fst (square irank 0 0 n n n L L)"
    "mp_rel n procs ?M (snd (mp_round n procs st))"
    using mp_round_step [OF v Suc.prems(1), of irank] by simp_all
  show ?case
  proof (cases "fst (square irank 0 0 n n n L L) \<noteq> 0")
    case True
    have "sp_loop irank 0 0 n n n L L r = Some (?M, Suc r)"
      using True by (subst sp_loop_unfold) simp
    moreover have "mp_loop n procs st r = Some (snd (mp_round n procs st), Suc r)"
      using True step(1) by (subst mp_loop_unfold) simp
    ultimately show ?thesis using step(2) by blast
  next
    case False
    have eq: "sp_loop irank 0 0 n n n L L r = sp_loop irank 0 0 n n n ?M ?M (Suc r)"
      using False by (subst sp_loop_unfold) simp
    have eq': "mp_loop n procs st r = mp_loop n procs (snd (mp_round n procs st)) (Suc r)"
      using False step(1) by (subst mp_loop_unfold) simp
    have "n \<le> 2 ^ (Suc s + k)" using Suc.prems(3) by simp
    then show ?thesis
      using Suc.IH [OF step(2) step_dist_upto [OF Suc.prems(2), of irank], where r = "Suc r"] eq eq'
      by simp
  qed
qed

lemma infinitize_tile_free:
  "infinitize imin_t jmin_t imax_t jmax_t n l = infinitize 0 0 n n n l"
  by (simp add: infinitize_def)

lemma deinfinitize_tile_free:
  "deinfinitize imin_t imax_t jmin_t jmax_t n l = deinfinitize 0 n 0 n n l"
  by (simp add: deinfinitize_def)

lemma mp_init_rel:
  assumes "valid_procs n procs" "length l = n * n"
  shows "mp_rel n procs (reset_diag n 0 (infinitize 0 0 n n n l)) (mp_init n procs l)"
proof -
  let ?L = "reset_diag n 0 (infinitize 0 0 n n n l)"
  let ?ls = "map (\<lambda>(irank, imin_t, imax_t, jmin_t, jmax_t).
                      reset_diag n 0 (infinitize imin_t jmin_t imax_t jmax_t n l)) procs"
  have ne: "procs \<noteq> []" using assms(1) by (simp add: valid_procs_def)
  have lenL: "length ?L = n * n" using assms(2) by (simp add: init_length)
  have ls: "?ls = map (\<lambda>p. ?L) procs"
    by (rule map_cong) (auto simp: infinitize_def)
  have lsne: "?ls \<noteq> []" using ne by simp
  have set_ls: "set ?ls = {?L}" unfolding ls using ne by (cases procs) auto
  have lnew: "allreduce max (n * n) ?ls = ?L"
  proof (rule nth_equalityI)
    show "length (allreduce max (n * n) ?ls) = length ?L"
      using allreduce_length [OF lsne] lenL by simp
  next
    fix c assume "c < length (allreduce max (n * n) ?ls)"
    then have c: "c < n * n" using allreduce_length [OF lsne] by simp
    show "allreduce max (n * n) ?ls ! c = ?L ! c"
      using allreduce_max_nth [OF lsne c] by (simp only: set_ls) simp
  qed
  have "mp_init n procs l = map (\<lambda>l0. (l0, allreduce max (n * n) ?ls)) ?ls"
    by (simp add: mp_init_def Let_def)
  also have "\<dots> = map (\<lambda>l0. (l0, ?L)) ?ls" by (simp only: lnew)
  also have "\<dots> = map (\<lambda>p. (?L, ?L)) procs" unfolding ls by simp
  finally have st: "mp_init n procs l = map (\<lambda>p. (?L, ?L)) procs" .
  show ?thesis unfolding st using lenL by (simp add: mp_rel_def)
qed

lemma mp_final_nth:
  assumes "length st = length procs" "k < length procs"
  shows "mp_final n procs st ! k = deinfinitize 0 n 0 n n (fst (st ! k))"
proof -
  have "mp_final n procs st ! k
        = (case procs ! k of (irank, imin_t, imax_t, jmin_t, jmax_t) \<Rightarrow>
             (\<lambda>(l, lnew). deinfinitize imin_t imax_t jmin_t jmax_t n l)) (st ! k)"
    using assms by (simp add: mp_final_def)
  also have "\<dots> = deinfinitize 0 n 0 n n (fst (st ! k))"
    by (cases "procs ! k"; cases "st ! k") (simp add: deinfinitize_def)
  finally show ?thesis .
qed

lemma mp_final_length: "length st = length procs \<Longrightarrow> length (mp_final n procs st) = length procs"
  by (simp add: mp_final_def)

lemma set_grid_procs:
  "p \<in> set (grid_procs n npx npy) \<longleftrightarrow> (\<exists>cx<npx. \<exists>cy<npy. p = proc_of n npx npy cx cy)"
proof
  assume "p \<in> set (grid_procs n npx npy)"
  then obtain r where r: "r < npx * npy" "p = proc_of n npx npy (r div npy) (r mod npy)"
    unfolding grid_procs_def by auto
  have "0 < npy" using r(1) by (cases npy) simp_all
  then have "r mod npy < npy" by simp
  moreover have "r div npy < npx" using r(1) by (simp add: less_mult_imp_div_less)
  ultimately show "\<exists>cx<npx. \<exists>cy<npy. p = proc_of n npx npy cx cy" using r(2) by blast
next
  assume "\<exists>cx<npx. \<exists>cy<npy. p = proc_of n npx npy cx cy"
  then obtain cx cy where c: "cx < npx" "cy < npy" "p = proc_of n npx npy cx cy" by blast
  let ?r = "cx * npy + cy"
  have "?r < npx * npy" using idx_lt [OF c(2,1)] .
  moreover have "?r div npy = cx" "?r mod npy = cy" using c(2) by simp_all
  ultimately have "\<exists>r<npx * npy. p = proc_of n npx npy (r div npy) (r mod npy)"
    using c(3) by metis
  then show "p \<in> set (grid_procs n npx npy)" unfolding grid_procs_def by auto
qed

lemma length_grid_procs: "length (grid_procs n npx npy) = npx * npy"
  by (simp add: grid_procs_def)

lemma proc_of_bound_at:
  assumes "0 < npx" "0 < npy"
  shows "proc_of n npx npy cx cy =
     (cx * npy + cy + 1, nat (bound_at (int n) (int npx) (int cx)), nat (bound_at (int n) (int npx) (int cx + 1)),
      nat (bound_at (int n) (int npy) (int cy)), nat (bound_at (int n) (int npy) (int cy + 1)))"
  using assms by (simp add: proc_of_def decompose_bound_at)

lemma bound_at_nonneg: "0 \<le> n \<Longrightarrow> 0 < g \<Longrightarrow> 0 \<le> k \<Longrightarrow> 0 \<le> bound_at n g k"
  using bound_at_mono [of n g 0 k] by (simp add: bound_at_0)

lemma bound_at_le: "0 \<le> n \<Longrightarrow> 0 < g \<Longrightarrow> k \<le> g \<Longrightarrow> bound_at n g k \<le> n"
  using bound_at_mono [of n g k g] by (simp add: bound_at_g)

lemma axis_cover:
  assumes "0 < g" "i < n"
  shows "\<exists>cx<g. nat (bound_at (int n) (int g) (int cx)) \<le> i
              \<and> i < nat (bound_at (int n) (int g) (int cx + 1))"
proof -
  obtain ip where ip: "1 \<le> ip" "ip \<le> int g" "owns (int n) (int g) ip (int i)"
    using owns_exists [of "int n" "int g" "int i"] assms by auto
  have "0 \<le> ip - 1" using ip(1) by simp
  then obtain cx where cx: "ip - 1 = int cx" using zero_le_imp_eq_int by blast
  then have ip': "ip = int cx + 1" by simp
  have c: "bound_at (int n) (int g) (int cx) \<le> int i" "int i < bound_at (int n) (int g) (int cx + 1)"
    using ip(3) assms cx ip' by (simp_all add: owns_iff)
  have "cx < g" using ip(2) ip' by simp
  moreover have "nat (bound_at (int n) (int g) (int cx)) \<le> i" using c(1) by (simp add: nat_le_iff)
  moreover have "i < nat (bound_at (int n) (int g) (int cx + 1))"
    using c(2) by (simp add: zless_nat_eq_int_zless)
  ultimately show ?thesis by blast
qed

lemma valid_grid_procs:
  assumes "1 \<le> gx" "1 \<le> gy"
  shows "valid_procs n (grid_procs n gx gy)"
  unfolding valid_procs_def
proof (intro conjI ballI allI impI)
  have "length (grid_procs n gx gy) \<noteq> 0" using assms by (simp add: length_grid_procs)
  then show "grid_procs n gx gy \<noteq> []" by auto
next
  fix p assume "p \<in> set (grid_procs n gx gy)"
  then obtain cx cy where c: "cx < gx" "cy < gy" "p = proc_of n gx gy cx cy"
    by (auto simp: set_grid_procs)
  have "bound_at (int n) (int gx) (int cx + 1) \<le> int n" using c(1) assms by (intro bound_at_le) simp_all
  moreover have "bound_at (int n) (int gy) (int cy + 1) \<le> int n" using c(2) assms by (intro bound_at_le) simp_all
  ultimately show "case p of (irank, imin_t, imax_t, jmin_t, jmax_t) \<Rightarrow> imax_t \<le> n \<and> jmax_t \<le> n"
    using c(3) assms by (simp add: proc_of_bound_at nat_le_iff)
next
  fix i j assume ij: "i < n" "j < n"
  obtain cx where cx: "cx < gx" "nat (bound_at (int n) (int gx) (int cx)) \<le> i"
      "i < nat (bound_at (int n) (int gx) (int cx + 1))"
    using axis_cover [of gx i n] assms ij by auto
  obtain cy where cy: "cy < gy" "nat (bound_at (int n) (int gy) (int cy)) \<le> j"
      "j < nat (bound_at (int n) (int gy) (int cy + 1))"
    using axis_cover [of gy j n] assms ij by auto
  have "own (proc_of n gx gy cx cy) i j"
    using cx cy assms by (simp add: proc_of_bound_at own_def in_tile_def)
  then show "\<exists>p\<in>set (grid_procs n gx gy). own p i j"
    using cx(1) cy(1) set_grid_procs by blast
qed

lemma mp_shortest_paths_eq:
  assumes "valid_procs n procs" "adjacency n l"
  shows "\<exists>m ms. shortest_paths irank 0 n 0 n n l = Some m
           \<and> mp_shortest_paths n procs l = Some ms
           \<and> length ms = length procs \<and> (\<forall>m'\<in>set ms. m' = m)"
proof -
  let ?L = "reset_diag n 0 (infinitize 0 0 n n n l)"
  have len: "length l = n * n" using assms(2) by (simp add: adjacency_def)
  have rel: "mp_rel n procs ?L (mp_init n procs l)" by (rule mp_init_rel [OF assms(1) len])
  have du: "dist_upto n l 0 ?L" by (rule init_dist_upto [OF assms(2)])
  have pw: "n \<le> 2 ^ (0 + ceillog2 n)" using le_two_power_ceillog2 [of n] by simp
  have "\<exists>M r' st'. sp_loop irank 0 0 n n n ?L ?L 0 = Some (M, r')
          \<and> mp_loop n procs (mp_init n procs l) 0 = Some (st', r') \<and> mp_rel n procs M st'"
    by (rule mp_loop_lockstep [OF assms(1) rel du pw])
  then obtain M r st' where res: "sp_loop irank 0 0 n n n ?L ?L 0 = Some (M, r)"
      "mp_loop n procs (mp_init n procs l) 0 = Some (st', r)" "mp_rel n procs M st'"
    by blast
  let ?m = "deinfinitize 0 n 0 n n M"
  have sp: "shortest_paths irank 0 n 0 n n l = Some ?m"
    using res(1) by (simp add: shortest_paths_def sp_run_def)
  have mp: "mp_shortest_paths n procs l = Some (mp_final n procs st')"
    using res(2) by (simp add: mp_shortest_paths_def)
  have lenst: "length st' = length procs" using res(3) by (simp add: mp_rel_def)
  have lenms: "length (mp_final n procs st') = length procs" by (rule mp_final_length [OF lenst])
  have all: "\<forall>m'\<in>set (mp_final n procs st'). m' = ?m"
  proof
    fix m' assume "m' \<in> set (mp_final n procs st')"
    then obtain k where k: "k < length procs" "m' = mp_final n procs st' ! k"
      using lenms by (metis in_set_conv_nth)
    have "fst (st' ! k) = M" using res(3) k(1) by (simp add: mp_rel_def)
    then show "m' = ?m" using mp_final_nth [OF lenst k(1), of n] k(2) by simp
  qed
  show ?thesis
    by (intro exI conjI) (rule sp, rule mp, rule lenms, rule all)
qed


section \<open>The contract of \<open>square\<close>\<close>



section \<open>The frame of \<open>square\<close>\<close>

text \<open>
  Claim C7. \<open>square\<close> changes \<open>lnew\<close> only at the indices \<open>j*n+i\<close> of tile cells: every
  other index keeps its value and the length is kept. For tile bounds inside the matrix
  (\<open>imax_ \<le> n\<close>) this says that every entry \<open>(i,j)\<close> with \<open>i < n\<close> outside the tile is
  unchanged. The array \<open>l\<close> is an argument of the model that no loop returns: the source
  has no store to \<open>l\<close>.
\<close>

theorem square_frame:
  "length (snd (square irank imin_t jmin_t imax_t jmax_t n l lnew)) = length lnew
   \<and> ((\<forall>i j. in_tile imin_t jmin_t imax_t jmax_t i j \<longrightarrow> c \<noteq> j * n + i) \<longrightarrow>
        snd (square irank imin_t jmin_t imax_t jmax_t n l lnew) ! c = lnew ! c)
   \<and> (imax_t \<le> n \<and> i < n \<and> \<not> in_tile imin_t jmin_t imax_t jmax_t i j \<longrightarrow>
        snd (square irank imin_t jmin_t imax_t jmax_t n l lnew) ! (j * n + i) = lnew ! (j * n + i))"
proof (intro conjI impI)
  show "length (snd (square irank imin_t jmin_t imax_t jmax_t n l lnew)) = length lnew"
    by (rule square_length)
next
  assume "\<forall>i j. in_tile imin_t jmin_t imax_t jmax_t i j \<longrightarrow> c \<noteq> j * n + i"
  then have "\<forall>i' j'. imin_t \<le> i' \<and> i' < imax_t \<and> jmin_t \<le> j' \<and> j' < jmax_t \<longrightarrow> c \<noteq> j' * n + i'"
    by (simp add: in_tile_def)
  then show "snd (square irank imin_t jmin_t imax_t jmax_t n l lnew) ! c = lnew ! c"
    using square_j_other [of imin_t imax_t jmin_t jmax_t c n l lnew 1] by (simp add: square_fst_snd)
next
  assume "imax_t \<le> n \<and> i < n \<and> \<not> in_tile imin_t jmin_t imax_t jmax_t i j"
  then show "snd (square irank imin_t jmin_t imax_t jmax_t n l lnew) ! (j * n + i) = lnew ! (j * n + i)"
    using square_outside by blast
qed

theorem square_frame_witness:
  "(1::nat) \<le> 2 \<and> (1::nat) < 2 \<and> \<not> in_tile 0 0 1 2 1 0
   \<and> snd (square 1 0 0 1 2 2 [0, 1, 3, 0] [0, 1, 3, 0]) ! (0 * 2 + 1) = [0, 1, 3, 0] ! (0 * 2 + 1)
   \<and> snd (square 1 0 0 1 2 2 [0, 1, 3, 0] [0, 1, 3, 0]) ! 3 = [0, 1, 3, 0] ! 3"
proof -
  have h: "(1::nat) \<le> 2 \<and> (1::nat) < 2 \<and> \<not> in_tile 0 0 1 2 1 0"
    by (simp add: in_tile_def)
  have "j * 2 + i = 3 \<Longrightarrow> i < 1 \<Longrightarrow> False" for i j :: nat
    by presburger
  then have g: "\<forall>i j. in_tile 0 0 1 2 i j \<longrightarrow> 3 \<noteq> j * 2 + i"
    unfolding in_tile_def by metis
  show ?thesis
    using square_frame [of 1 0 0 1 2 2 "[0, 1, 3, 0]" "[0, 1, 3, 0]" 3 1 0]
      square_frame [of 1 0 0 1 2 2 "[0, 1, 3, 0]" "[0, 1, 3, 0]" 3 1 0] h g by blast
qed

section \<open>What \<open>square\<close> reads of \<open>lnew\<close>\<close>




section \<open>The infinity convention\<close>

text \<open>
  Claim C9. For \<open>n \<ge> 1\<close> and an \<open>n\<close>-by-\<open>n\<close> matrix \<open>l\<close>, \<open>infinitize\<close> turns every entry 0
  into \<open>n+1\<close> and keeps every other entry, at all \<open>n*n\<close> indices and whatever tile bounds
  it is given. The loop that follows it in \<open>shortest_paths\<close> sets to 0 exactly the indices
  \<open>i*(n+1)\<close>, \<open>i < n\<close>, of any matrix. After both, the diagonal is 0, every off-diagonal
  entry that was 0 is \<open>n+1\<close>, and every other off-diagonal entry is as it was.
\<close>

theorem infinity_convention:
  assumes "1 \<le> n" "length l = n * n"
  shows "length (infinitize imin_t jmin_t imax_t jmax_t n l) = n * n
    \<and> (\<forall>c<n * n. infinitize imin_t jmin_t imax_t jmax_t n l ! c
                     = (if l ! c = 0 then int n + 1 else l ! c))
    \<and> (\<forall>l'. length l' = n * n \<longrightarrow> length (reset_diag n 0 l') = n * n \<and>
          (\<forall>c<n * n. reset_diag n 0 l' ! c = (if \<exists>i<n. c = i * (n + 1) then 0 else l' ! c)))
    \<and> (\<forall>i<n. \<forall>j<n. reset_diag n 0 (infinitize imin_t jmin_t imax_t jmax_t n l) ! (j * n + i)
          = (if i = j then 0 else if l ! (j * n + i) = 0 then int n + 1 else l ! (j * n + i)))"
proof (intro conjI allI impI)
  show "length (infinitize imin_t jmin_t imax_t jmax_t n l) = n * n"
    using assms(2) by (simp add: infinitize_def infinitize_loop_length)
next
  fix c assume "c < n * n"
  then show "infinitize imin_t jmin_t imax_t jmax_t n l ! c = (if l ! c = 0 then int n + 1 else l ! c)"
    using infinitize_loop_nth [of c l n 0] assms(2) by (simp add: infinitize_def)
next
  fix l' :: "int list" assume "length l' = n * n"
  then show "length (reset_diag n 0 l') = n * n"
    using reset_diag_length [of n 0 l'] by simp
next
  fix l' :: "int list" and c assume "length l' = n * n" "c < n * n"
  then show "reset_diag n 0 l' ! c = (if \<exists>i<n. c = i * (n + 1) then 0 else l' ! c)"
    using reset_diag_nth [of c l' n 0] by simp
next
  fix i j assume "i < n" "j < n"
  then show "reset_diag n 0 (infinitize imin_t jmin_t imax_t jmax_t n l) ! (j * n + i)
          = (if i = j then 0 else if l ! (j * n + i) = 0 then int n + 1 else l ! (j * n + i))"
    using init_nth [OF assms(2)] by simp
qed

theorem infinity_convention_witness:
  "(1::nat) \<le> 2 \<and> length [0, 1, 0, 0 :: int] = 2 * 2
   \<and> infinitize 0 0 1 1 2 [0, 1, 0, 0] ! 2 = 3
   \<and> infinitize 0 0 1 1 2 [0, 1, 0, 0] ! 1 = 1
   \<and> reset_diag 2 0 (infinitize 0 0 1 1 2 [0, 1, 0, 0]) ! (1 * 2 + 1) = 0
   \<and> reset_diag 2 0 (infinitize 0 0 1 1 2 [0, 1, 0, 0]) ! (1 * 2 + 0) = 3"
proof -
  have h: "(1::nat) \<le> 2" "length [0, 1, 0, 0 :: int] = 2 * 2" by simp_all
  note t = infinity_convention [OF h, of 0 0 1 1]
  have a: "\<forall>c<2 * 2. infinitize 0 0 1 1 2 [0, 1, 0, 0] ! c
             = (if [0, 1, 0, 0 :: int] ! c = 0 then int 2 + 1 else [0, 1, 0, 0] ! c)"
    using t by blast
  have b: "\<forall>i<2. \<forall>j<2. reset_diag 2 0 (infinitize 0 0 1 1 2 [0, 1, 0, 0]) ! (j * 2 + i)
          = (if i = j then 0 else if [0, 1, 0, 0 :: int] ! (j * 2 + i) = 0 then int 2 + 1
             else [0, 1, 0, 0] ! (j * 2 + i))"
    using t by blast
  have "infinitize 0 0 1 1 2 [0, 1, 0, 0] ! 2 = 3" "infinitize 0 0 1 1 2 [0, 1, 0, 0] ! 1 = 1"
    using a [rule_format, of 2] a [rule_format, of 1] by simp_all
  moreover have "reset_diag 2 0 (infinitize 0 0 1 1 2 [0, 1, 0, 0]) ! (1 * 2 + 1) = 0"
    using b [rule_format, of 1 1] by simp
  moreover have "reset_diag 2 0 (infinitize 0 0 1 1 2 [0, 1, 0, 0]) ! (1 * 2 + 0) = 3"
    using b [rule_format, of 0 1] by simp
  ultimately show ?thesis using h by blast
qed

section \<open>Correctness of \<open>shortest_paths\<close> on one process\<close>

text \<open>
  Claim C1. For \<open>n \<ge> 1\<close> and an \<open>n\<close>-by-\<open>n\<close> matrix of zeros and ones with zero diagonal,
  \<open>shortest_paths\<close> on one process, with the whole matrix as its tile, returns; in the
  matrix it leaves, entry \<open>(i,j)\<close> is the least number of edges of a directed path from
  \<open>i\<close> to \<open>j\<close> when there is one, 0 when \<open>i = j\<close>, and 0 when there is no path.
\<close>

theorem shortest_paths_correct:
  assumes "1 \<le> n" "adjacency n l"
  shows "\<exists>m. shortest_paths irank 0 n 0 n n l = Some m \<and> length m = n * n
     \<and> (\<forall>i<n. \<forall>j<n.
            (reachable n l i j \<longrightarrow> m ! (j * n + i) = int (hop_dist n l i j))
          \<and> (i = j \<longrightarrow> m ! (j * n + i) = 0)
          \<and> (\<not> reachable n l i j \<longrightarrow> m ! (j * n + i) = 0))"
proof -
  obtain M r where run: "sp_run irank 0 n 0 n n l = Some (M, r)" "length M = n * n"
    and M: "\<forall>i<n. \<forall>j<n. M ! (j * n + i)
              = (if reachable n l i j then int (hop_dist n l i j) else int n + 1)"
    using sp_run_correct [OF assms(2), of irank] by blast
  let ?m = "deinfinitize 0 n 0 n n M"
  have res: "shortest_paths irank 0 n 0 n n l = Some ?m"
    using run(1) by (simp add: shortest_paths_def)
  have len: "length ?m = n * n"
    using run(2) by (simp add: deinfinitize_def deinfinitize_loop_length)
  have cell: "?m ! (j * n + i) = (if reachable n l i j then int (hop_dist n l i j) else 0)"
    if ij: "i < n" "j < n" for i j
  proof -
    have c: "j * n + i < length M" using idx_lt [OF ij] run(2) by simp
    have "?m ! (j * n + i) = (if M ! (j * n + i) = int n + 1 then 0 else M ! (j * n + i))"
      using deinfinitize_loop_nth [OF c run(2), of 0] by (simp add: deinfinitize_def)
    moreover have "M ! (j * n + i) = (if reachable n l i j then int (hop_dist n l i j) else int n + 1)"
      using M ij by blast
    moreover have "int (hop_dist n l i j) \<noteq> int n + 1" if "reachable n l i j"
      using dist_less [OF that ij(1)] by simp
    ultimately show ?thesis by simp
  qed
  have "(reachable n l i j \<longrightarrow> ?m ! (j * n + i) = int (hop_dist n l i j))
          \<and> (i = j \<longrightarrow> ?m ! (j * n + i) = 0)
          \<and> (\<not> reachable n l i j \<longrightarrow> ?m ! (j * n + i) = 0)"
    if ij: "i < n" "j < n" for i j
    using cell [OF ij] reachable_refl [of n l i] dist_refl [of n l i] by auto
  then show ?thesis using res len by blast
qed

theorem shortest_paths_correct_witness:
  "(1::nat) \<le> 3 \<and> adjacency 3 [0, 0, 0, 1, 0, 0, 0, 1, 0]
   \<and> (\<exists>m. shortest_paths 1 0 3 0 3 3 [0, 0, 0, 1, 0, 0, 0, 1, 0] = Some m \<and> length m = 3 * 3
        \<and> (\<forall>i<3. \<forall>j<3.
            (reachable 3 [0, 0, 0, 1, 0, 0, 0, 1, 0] i j \<longrightarrow>
               m ! (j * 3 + i) = int (hop_dist 3 [0, 0, 0, 1, 0, 0, 0, 1, 0] i j))
          \<and> (i = j \<longrightarrow> m ! (j * 3 + i) = 0)
          \<and> (\<not> reachable 3 [0, 0, 0, 1, 0, 0, 0, 1, 0] i j \<longrightarrow> m ! (j * 3 + i) = 0)))
   \<and> shortest_paths 1 0 3 0 3 3 [0, 0, 0, 1, 0, 0, 0, 1, 0] = Some [0, 0, 0, 1, 0, 0, 2, 1, 0]"
proof -
  have h: "(1::nat) \<le> 3" by simp
  have a: "adjacency 3 [0, 0, 0, 1, 0, 0, 0, 1, 0]" by code_simp
  have v: "shortest_paths 1 0 3 0 3 3 [0, 0, 0, 1, 0, 0, 0, 1, 0] = Some [0, 0, 0, 1, 0, 0, 2, 1, 0]"
    by code_simp
  show ?thesis using shortest_paths_correct [OF h a, of 1] h a v by blast
qed

section \<open>The number of rounds\<close>

text \<open>
  Claim C5. For \<open>n \<ge> 1\<close> and an \<open>n\<close>-by-\<open>n\<close> matrix of zeros and ones with zero diagonal,
  the loop of \<open>shortest_paths\<close> on one process ends, after at most
  \<open>\<lceil>log\<^sub>2 n\<rceil> + 1\<close> rounds.
\<close>

theorem round_bound:
  assumes "1 \<le> n" "adjacency n l"
  shows "\<exists>M r. sp_run irank 0 n 0 n n l = Some (M, r)
           \<and> r \<le> ceillog2 n + 1 \<and> ceillog2 n = nat \<lceil>log 2 (real n)\<rceil>"
proof -
  have "ceillog2 n = nat \<lceil>log 2 (real n)\<rceil>" using assms(1) by (simp add: ceillog2_def)
  then show ?thesis using sp_run_correct [OF assms(2), of irank] by blast
qed

theorem round_bound_witness:
  "(1::nat) \<le> 4 \<and> adjacency 4 [0, 0, 0, 0, 1, 0, 0, 0, 0, 1, 0, 0, 0, 0, 1, 0]
   \<and> (\<exists>M r. sp_run 1 0 4 0 4 4 [0, 0, 0, 0, 1, 0, 0, 0, 0, 1, 0, 0, 0, 0, 1, 0] = Some (M, r)
           \<and> r \<le> ceillog2 4 + 1 \<and> ceillog2 4 = nat \<lceil>log 2 (real (4::nat))\<rceil>)
   \<and> sp_run 1 0 4 0 4 4 [0, 0, 0, 0, 1, 0, 0, 0, 0, 1, 0, 0, 0, 0, 1, 0]
        = Some ([0, 5, 5, 5, 1, 0, 5, 5, 2, 1, 0, 5, 3, 2, 1, 0], 3)"
proof -
  have h: "(1::nat) \<le> 4" by simp
  have a: "adjacency 4 [0, 0, 0, 0, 1, 0, 0, 0, 0, 1, 0, 0, 0, 0, 1, 0]" by code_simp
  have v: "sp_run 1 0 4 0 4 4 [0, 0, 0, 0, 1, 0, 0, 0, 0, 1, 0, 0, 0, 0, 1, 0]
        = Some ([0, 5, 5, 5, 1, 0, 5, 5, 2, 1, 0, 5, 3, 2, 1, 0], 3)"
    by code_simp
  show ?thesis using round_bound [OF h a, of 1] h a v by blast
qed

section \<open>The domain decomposition\<close>

text \<open>
  Claim C3. For \<open>n \<ge> 1\<close> and an axis of \<open>g\<close> processes, \<open>1 \<le> g \<le> n\<close>, with \<open>q = n / g\<close>
  and \<open>r = n % g\<close>: process \<open>iproc\<close> of \<open>1..g\<close> gets \<open>q+1\<close> indices when \<open>iproc \<le> r\<close> and
  \<open>q\<close> otherwise, at least one, inside \<open>[0,n)\<close>; every index of \<open>[0,n)\<close> belongs to
  exactly one process. On the two axes \<open>gx\<close> and \<open>gy\<close>, every cell of
  \<open>[0,n) \<times> [0,n)\<close> belongs to exactly one of the \<open>gx*gy\<close> tiles.
\<close>

theorem decomposition_partition:
  assumes "1 \<le> n" "1 \<le> gx" "gx \<le> n" "1 \<le> gy" "gy \<le> n"
  shows "(\<forall>g\<in>{gx, gy}.
           (\<forall>ip\<in>{1..g}.
              snd (decompose n g ip) - fst (decompose n g ip)
                = (if ip \<le> c_mod n g then c_div n g + 1 else c_div n g)
            \<and> 1 \<le> snd (decompose n g ip) - fst (decompose n g ip)
            \<and> 0 \<le> fst (decompose n g ip) \<and> snd (decompose n g ip) \<le> n)
         \<and> (\<forall>x\<in>{0..<n}. \<exists>!ip. ip \<in> {1..g} \<and> owns n g ip x)
         \<and> (\<forall>ip\<in>{1..g}. \<forall>x. owns n g ip x \<longrightarrow> x \<in> {0..<n}))
       \<and> (\<forall>x\<in>{0..<n}. \<forall>y\<in>{0..<n}.
             \<exists>!(ip, jp). ip \<in> {1..gx} \<and> jp \<in> {1..gy} \<and> owns n gx ip x \<and> owns n gy jp y)"
proof -
  let ?axis = "\<lambda>g. (\<forall>ip\<in>{1..g}.
              snd (decompose n g ip) - fst (decompose n g ip)
                = (if ip \<le> c_mod n g then c_div n g + 1 else c_div n g)
            \<and> 1 \<le> snd (decompose n g ip) - fst (decompose n g ip)
            \<and> 0 \<le> fst (decompose n g ip) \<and> snd (decompose n g ip) \<le> n)
         \<and> (\<forall>x\<in>{0..<n}. \<exists>!ip. ip \<in> {1..g} \<and> owns n g ip x)
         \<and> (\<forall>ip\<in>{1..g}. \<forall>x. owns n g ip x \<longrightarrow> x \<in> {0..<n})"
  have axis: "?axis g" if "g \<in> {gx, gy}" for g
  proof -
    have g: "1 \<le> g" "g \<le> n" using that assms by auto
    show ?thesis by (rule axis_partition [OF assms(1) g])
  qed
  have plane: "\<exists>!(ip, jp). ip \<in> {1..gx} \<and> jp \<in> {1..gy} \<and> owns n gx ip x \<and> owns n gy jp y"
    if xy: "x \<in> {0..<n}" "y \<in> {0..<n}" for x y
  proof -
    have ex: "\<exists>!ip. ip \<in> {1..gx} \<and> owns n gx ip x"
      using axis_partition [OF assms(1,2,3)] xy(1) by blast
    have ey: "\<exists>!jp. jp \<in> {1..gy} \<and> owns n gy jp y"
      using axis_partition [OF assms(1,4,5)] xy(2) by blast
    from ex obtain ip where ip: "ip \<in> {1..gx} \<and> owns n gx ip x"
      "\<And>ip'. ip' \<in> {1..gx} \<and> owns n gx ip' x \<Longrightarrow> ip' = ip" by blast
    from ey obtain jp where jp: "jp \<in> {1..gy} \<and> owns n gy jp y"
      "\<And>jp'. jp' \<in> {1..gy} \<and> owns n gy jp' y \<Longrightarrow> jp' = jp" by blast
    show ?thesis
    proof (rule ex1I [of _ "(ip, jp)"])
      show "case (ip, jp) of (ip, jp) \<Rightarrow> ip \<in> {1..gx} \<and> jp \<in> {1..gy} \<and> owns n gx ip x \<and> owns n gy jp y"
        using ip(1) jp(1) by simp
    next
      fix p assume "case p of (ip, jp) \<Rightarrow> ip \<in> {1..gx} \<and> jp \<in> {1..gy} \<and> owns n gx ip x \<and> owns n gy jp y"
      then show "p = (ip, jp)" using ip(2) jp(2) by (cases p) auto
    qed
  qed
  have "\<forall>g\<in>{gx, gy}. ?axis g" using axis by (rule ballI)
  moreover have "\<forall>x\<in>{0..<n}. \<forall>y\<in>{0..<n}.
             \<exists>!(ip, jp). ip \<in> {1..gx} \<and> jp \<in> {1..gy} \<and> owns n gx ip x \<and> owns n gy jp y"
    using plane by (intro ballI)
  ultimately show ?thesis by (rule conjI)
qed

theorem decomposition_partition_witness:
  "(1::int) \<le> 5 \<and> (1::int) \<le> 2 \<and> (2::int) \<le> 5 \<and> (1::int) \<le> 3 \<and> (3::int) \<le> 5
   \<and> decompose 5 2 1 = (0, 3) \<and> decompose 5 2 2 = (3, 5)
   \<and> decompose 5 3 1 = (0, 2) \<and> decompose 5 3 2 = (2, 4) \<and> decompose 5 3 3 = (4, 5)
   \<and> (\<exists>!ip. ip \<in> {1..2} \<and> owns 5 2 ip 3)
   \<and> (\<exists>!(ip, jp). ip \<in> {1..2} \<and> jp \<in> {1..3} \<and> owns 5 2 ip 3 \<and> owns 5 3 jp 4)"
proof -
  have h: "(1::int) \<le> 5" "(1::int) \<le> 2" "(2::int) \<le> 5" "(1::int) \<le> 3" "(3::int) \<le> 5"
    by simp_all
  have d: "decompose 5 2 1 = (0, 3)" "decompose 5 2 2 = (3, 5)"
    "decompose 5 3 1 = (0, 2)" "decompose 5 3 2 = (2, 4)" "decompose 5 3 3 = (4, 5)"
    by (simp_all add: decompose_def c_div_def c_mod_def)
  note t = decomposition_partition [OF h]
  have "(2::int) \<in> {2, 3}" "(3::int) \<in> {0..<5}" "(4::int) \<in> {0..<5}" by simp_all
  then have "\<exists>!ip. ip \<in> {1..2} \<and> owns 5 2 ip 3"
    "\<exists>!(ip, jp). ip \<in> {1..2} \<and> jp \<in> {1..3} \<and> owns 5 2 ip 3 \<and> owns 5 3 jp 4"
    using t by blast+
  then show ?thesis using h d by blast
qed

section \<open>The test of the process grid\<close>





section \<open>The generated graph\<close>

text \<open>
  Claim C10. For every \<open>n\<close> and \<open>p\<close>, whatever the generator, \<open>gen_graph\<close> returns an
  \<open>n\<close>-by-\<open>n\<close> matrix of zeros and ones with zero diagonal. The generator state is a
  local variable seeded with 10302011 in every call and every cell of the array is
  written, so that the result is the same whatever the array held before: it is
  determined by \<open>n\<close>, \<open>p\<close> and the generator.
\<close>

theorem gen_graph_postcondition:
  "adjacency n (gen_graph sgenrand genrand less_d n p)
   \<and> (\<forall>l0. length l0 = n * n \<longrightarrow>
         fst (gen_graph_j genrand less_d n p 0 (l0, sgenrand 10302011))
           = gen_graph sgenrand genrand less_d n p)"
proof (intro conjI allI impI)
  have len: "length (replicate (n * n) (0::int)) = n * n" by simp
  show "adjacency n (gen_graph sgenrand genrand less_d n p)"
    by (rule conjunct1 [OF gen_graph_adjacency_any [OF len]])
next
  fix l0 :: "int list" assume len: "length l0 = n * n"
  show "fst (gen_graph_j genrand less_d n p 0 (l0, sgenrand 10302011))
           = gen_graph sgenrand genrand less_d n p"
    by (rule conjunct2 [OF gen_graph_adjacency_any [OF len]])
qed

theorem gen_graph_postcondition_witness:
  "adjacency 3 (gen_graph (\<lambda>seed. seed) (\<lambda>s::int. (s mod 3, s div 3)) (<) 3 (1::int))
   \<and> length [5, 5, 5, 5, 5, 5, 5, 5, 5 :: int] = 3 * 3
   \<and> fst (gen_graph_j (\<lambda>s::int. (s mod 3, s div 3)) (<) 3 (1::int) 0
             ([5, 5, 5, 5, 5, 5, 5, 5, 5], 10302011))
        = gen_graph (\<lambda>seed. seed) (\<lambda>s::int. (s mod 3, s div 3)) (<) 3 (1::int)
   \<and> gen_graph (\<lambda>seed. seed) (\<lambda>s::int. (s mod 3, s div 3)) (<) 3 (1::int)
        = [0, 0, 0, 1, 0, 0, 0, 1, 0]"
proof -
  have len: "length [5, 5, 5, 5, 5, 5, 5, 5, 5 :: int] = 3 * 3" by simp
  have v: "gen_graph (\<lambda>seed. seed) (\<lambda>s::int. (s mod 3, s div 3)) (<) 3 (1::int)
        = [0, 0, 0, 1, 0, 0, 0, 1, 0]"
    by code_simp
  show ?thesis
    using gen_graph_postcondition [of 3 "\<lambda>seed. seed" "\<lambda>s::int. (s mod 3, s div 3)" "(<)" "1::int"]
      len v by blast
qed

section \<open>Independence of the process grid\<close>

text \<open>
  Claim C2. Let \<open>l\<close> be the adjacency matrix of a graph on \<open>n\<close> nodes, \<open>1 \<le> n\<close>, with
  \<open>n * n\<close> in the range of an int, and let the processes be those of a \<open>gx\<close> by \<open>gy\<close>
  grid, \<open>1 \<le> gx\<close> and \<open>1 \<le> gy\<close>, each with the tile \<open>main\<close> computes for it. Then the
  single process and the grid both return; the grid returns one matrix for each of
  its \<open>gx * gy\<close> processes, and every one of them is the matrix of the single
  process, entry for entry, so its checksum \<open>fletcher16\<close> is the same as well.
\<close>

theorem grid_independence:
  assumes "1 \<le> n" "int32 (int (n * n))" "adjacency n l" "1 \<le> gx" "1 \<le> gy"
  shows "\<exists>m ms. shortest_paths irank 0 n 0 n n l = Some m
           \<and> mp_shortest_paths n (grid_procs n gx gy) l = Some ms
           \<and> length ms = gx * gy
           \<and> (\<forall>m'\<in>set ms. m' = m \<and> fletcher16 m' (n * n) = fletcher16 m (n * n))"
proof -
  have v: "valid_procs n (grid_procs n gx gy)"
    by (rule valid_grid_procs [OF assms(4,5)])
  obtain m ms where r: "shortest_paths irank 0 n 0 n n l = Some m"
      "mp_shortest_paths n (grid_procs n gx gy) l = Some ms"
      "length ms = length (grid_procs n gx gy)" "\<forall>m'\<in>set ms. m' = m"
    using mp_shortest_paths_eq [OF v assms(3), of irank] by blast
  have "length ms = gx * gy"
    using r(3) by (simp add: length_grid_procs)
  moreover have "\<forall>m'\<in>set ms. m' = m \<and> fletcher16 m' (n * n) = fletcher16 m (n * n)"
    using r(4) by simp
  ultimately show ?thesis
    using r(1,2) by blast
qed

text \<open>
  The chain \<open>0 \<rightarrow> 1 \<rightarrow> 2\<close> on a 2 by 2 grid: the four tiles are 2 by 2, 2 by 1, 1 by 2
  and 1 by 1, and each of the four processes ends with the matrix of the single
  process, of checksum \<open>0xE04\<close>.
\<close>

theorem grid_independence_witness:
  "(1 :: nat) \<le> 3 \<and> int32 (int (3 * 3)) \<and> adjacency 3 [0, 0, 0, 1, 0, 0, 0, 1, 0]
   \<and> grid_procs 3 2 2 = [(1, 0, 2, 0, 2), (2, 0, 2, 2, 3), (3, 2, 3, 0, 2), (4, 2, 3, 2, 3)]
   \<and> (\<exists>m ms. shortest_paths 1 0 3 0 3 3 [0, 0, 0, 1, 0, 0, 0, 1, 0] = Some m
         \<and> mp_shortest_paths 3 (grid_procs 3 2 2) [0, 0, 0, 1, 0, 0, 0, 1, 0] = Some ms
         \<and> length ms = 2 * 2
         \<and> (\<forall>m'\<in>set ms. m' = m \<and> fletcher16 m' (3 * 3) = fletcher16 m (3 * 3)))
   \<and> shortest_paths 1 0 3 0 3 3 [0, 0, 0, 1, 0, 0, 0, 1, 0] = Some [0, 0, 0, 1, 0, 0, 2, 1, 0]
   \<and> mp_shortest_paths 3 (grid_procs 3 2 2) [0, 0, 0, 1, 0, 0, 0, 1, 0]
       = Some [[0, 0, 0, 1, 0, 0, 2, 1, 0], [0, 0, 0, 1, 0, 0, 2, 1, 0],
               [0, 0, 0, 1, 0, 0, 2, 1, 0], [0, 0, 0, 1, 0, 0, 2, 1, 0]]
   \<and> fletcher16 [0, 0, 0, 1, 0, 0, 2, 1, 0] 9 = 3588"
proof -
  have a: "(1 :: nat) \<le> 3" by simp
  have b: "int32 (int (3 * 3))" by (simp add: int32_def)
  have c: "adjacency 3 [0, 0, 0, 1, 0, 0, 0, 1, 0]" by code_simp
  have d: "grid_procs 3 2 2 = [(1, 0, 2, 0, 2), (2, 0, 2, 2, 3), (3, 2, 3, 0, 2), (4, 2, 3, 2, 3)]"
    by code_simp
  have e: "shortest_paths 1 0 3 0 3 3 [0, 0, 0, 1, 0, 0, 0, 1, 0] = Some [0, 0, 0, 1, 0, 0, 2, 1, 0]"
    by code_simp
  have f: "mp_shortest_paths 3 (grid_procs 3 2 2) [0, 0, 0, 1, 0, 0, 0, 1, 0]
       = Some [[0, 0, 0, 1, 0, 0, 2, 1, 0], [0, 0, 0, 1, 0, 0, 2, 1, 0],
               [0, 0, 0, 1, 0, 0, 2, 1, 0], [0, 0, 0, 1, 0, 0, 2, 1, 0]]"
    by code_simp
  have g: "fletcher16 [0, 0, 0, 1, 0, 0, 2, 1, 0] 9 = 3588" by code_simp
  note t = grid_independence [OF a b c, of 2 2 1]
  have i: "\<exists>m ms. shortest_paths 1 0 3 0 3 3 [0, 0, 0, 1, 0, 0, 0, 1, 0] = Some m
         \<and> mp_shortest_paths 3 (grid_procs 3 2 2) [0, 0, 0, 1, 0, 0, 0, 1, 0] = Some ms
         \<and> length ms = 2 * 2
         \<and> (\<forall>m'\<in>set ms. m' = m \<and> fletcher16 m' (3 * 3) = fletcher16 m (3 * 3))"
    by (rule t) simp_all
  show ?thesis
    using a b c d e f g i by blast
qed

end
